theory Spec2Isabelle
  imports Main
begin

section \<open>Data model of \<open>task_runners/service.py\<close>\<close>

text \<open>
  The enumerations \<open>TaskStatus\<close> and \<open>TaskPriority\<close>, with the string each member
  carries as its \<open>.value\<close>.
\<close>

datatype TaskStatus = PENDING | RUNNING | COMPLETED | FAILED | CANCELLED | RETRYING

datatype TaskPriority = LOW | MEDIUM | HIGH | URGENT

fun status_value :: "TaskStatus \<Rightarrow> string" where
  "status_value PENDING = ''pending''"
| "status_value RUNNING = ''running''"
| "status_value COMPLETED = ''completed''"
| "status_value FAILED = ''failed''"
| "status_value CANCELLED = ''cancelled''"
| "status_value RETRYING = ''retrying''"

fun priority_value :: "TaskPriority \<Rightarrow> string" where
  "priority_value LOW = ''low''"
| "priority_value MEDIUM = ''medium''"
| "priority_value HIGH = ''high''"
| "priority_value URGENT = ''urgent''"

text \<open>
  A reading of \<open>datetime.utcnow()\<close> is a number handed in by the environment. A Python
  value a task function returns is an integer or a string here; \<open>None\<close> is the \<open>None\<close>
  of the option type, as in the annotation \<open>Optional[Any]\<close>.
\<close>

type_synonym datetime = nat

datatype pyval = PyInt int | PyStr string

text \<open>
  The dataclass \<open>Task\<close>. The fields \<open>function\<close>, \<open>args\<close> and \<open>kwargs\<close> are an opaque
  callable: what a call of it does is an \<open>outcome\<close> given by the environment at the
  moment the call ends, either the value returned or the text \<open>str(e)\<close> of the exception
  raised (an \<open>Exception\<close>; \<open>CancelledError\<close> is not one and is treated with \<open>stop\<close>).
\<close>

record Task =
  task_id :: string
  name :: string
  priority :: TaskPriority
  status :: TaskStatus
  created_at :: datetime
  started_at :: "datetime option"
  completed_at :: "datetime option"
  result :: "pyval option"
  error :: "string option"
  retries :: int
  max_retries :: int

datatype outcome = Returned "pyval option" | Raised string

text \<open>
  Task objects are shared: the queue, the two tables and a worker's local variable hold
  references to one object, and a write through one is seen through the others. So the
  objects live in a heap indexed by reference, and everything else stores references.
\<close>

type_synonym ref = nat

text \<open>
  \<open>TaskQueue\<close>: a dict from priority to an unbounded \<open>asyncio.Queue\<close>, each a FIFO list
  with its front at the head.
\<close>

record TaskQueue =
  queues :: "TaskPriority \<Rightarrow> ref list"

definition TaskQueue_init :: TaskQueue where
  "TaskQueue_init = \<lparr>queues = (\<lambda>p. [])\<rparr>"

text \<open>\<open>put\<close>: append to the queue of the task's priority. The queue is unbounded, so
  \<open>Queue.put\<close> neither waits nor fails.\<close>

definition put :: "TaskQueue \<Rightarrow> (ref \<Rightarrow> Task) \<Rightarrow> ref \<Rightarrow> TaskQueue" where
  "put tq heap r =
     tq\<lparr>queues := (queues tq)(priority (heap r) := queues tq (priority (heap r)) @ [r])\<rparr>"

text \<open>The order in which both loops of \<open>get\<close> visit the queues.\<close>

definition scan_order :: "TaskPriority list" where
  "scan_order = [URGENT, HIGH, MEDIUM, LOW]"

text \<open>One pass of \<open>for priority in [...]\<close>: the first queue that is not empty gives its
  front element; \<open>None\<close> when the pass finds every queue empty.\<close>

fun scan :: "TaskQueue \<Rightarrow> TaskPriority list \<Rightarrow> (ref \<times> TaskQueue) option" where
  "scan tq [] = None"
| "scan tq (p # ps) =
     (case queues tq p of
        [] \<Rightarrow> scan tq ps
      | r # rs \<Rightarrow> Some (r, tq\<lparr>queues := (queues tq)(p := rs)\<rparr>))"

text \<open>
  \<open>get\<close>: the first pass tests \<open>queue.empty()\<close> and takes with \<open>queue.get()\<close>; when it
  finds nothing, the \<open>while True\<close> loop repeats the same pass with \<open>get_nowait\<close> and sleeps
  0.1 s between passes. Both passes compute \<open>scan\<close>. The value \<open>None\<close> stands for
  the caller staying suspended in that loop: it has no task yet and polls again later.
\<close>

definition get :: "TaskQueue \<Rightarrow> (ref \<times> TaskQueue) option" where
  "get tq = scan tq scan_order"

text \<open>The rank of a priority in the scan: smaller is served first.\<close>

fun rank :: "TaskPriority \<Rightarrow> nat" where
  "rank URGENT = 0"
| "rank HIGH = 1"
| "rank MEDIUM = 2"
| "rank LOW = 3"

text \<open>What \<open>n\<close> calls of \<open>get\<close> in a row return, while no task is put in between; the
  calls end early when a call finds every queue empty.\<close>

fun drain :: "nat \<Rightarrow> TaskQueue \<Rightarrow> ref list" where
  "drain 0 tq = []"
| "drain (Suc n) tq =
     (case get tq of None \<Rightarrow> [] | Some (r, tq') \<Rightarrow> r # drain n tq')"

section \<open>The runner\<close>

text \<open>
  A worker coroutine is suspended at one of two places: in \<open>await self.task_queue.get()\<close>
  (\<open>Waiting\<close>), or inside \<open>_execute_task\<close> in the call of the task's function, its local
  variable \<open>task\<close> holding a reference (\<open>Executing\<close>). A function that is not a coroutine
  function does not suspend, so for it the second place is passed without another
  coroutine running in between; the model allows the interleaving for every task.
\<close>

datatype worker = Waiting | Executing ref

text \<open>
  \<open>TaskRunner\<close> and the heap of Task objects it refers to. \<open>next_ref\<close> is the reference
  the next constructed Task gets.
\<close>

record TaskRunner =
  max_workers :: int
  task_queue :: TaskQueue
  active_tasks :: "string \<rightharpoonup> ref"
  completed_tasks :: "string \<rightharpoonup> ref"
  workers :: "worker list"
  is_running :: bool
  heap :: "ref \<Rightarrow> Task"
  next_ref :: ref

definition blank_task :: Task where
  "blank_task = \<lparr>task_id = [], name = [], priority = MEDIUM, status = PENDING,
     created_at = 0, started_at = None, completed_at = None, result = None,
     error = None, retries = 0, max_retries = 3\<rparr>"

definition TaskRunner_init :: "int \<Rightarrow> TaskRunner" where
  "TaskRunner_init n = \<lparr>max_workers = n, task_queue = TaskQueue_init,
     active_tasks = Map.empty, completed_tasks = Map.empty, workers = [],
     is_running = False, heap = (\<lambda>r. blank_task), next_ref = 0\<rparr>"

text \<open>\<open>start\<close>: nothing when already running; else one worker per \<open>range(max_workers)\<close>.\<close>

definition start :: "TaskRunner \<Rightarrow> TaskRunner" where
  "start s =
     (if is_running s then s
      else s\<lparr>is_running := True,
             workers := workers s @ replicate (nat (max_workers s)) Waiting\<rparr>)"

text \<open>
  \<open>submit_task\<close>: \<open>generate_task_id()\<close> is \<open>str(uuid.uuid4())\<close>, so the id is an input
  from the environment, as is the clock reading for \<open>created_at\<close>. The new Task takes the
  dataclass defaults for the other fields. Returns the id.
\<close>

definition submit_task ::
  "TaskRunner \<Rightarrow> string \<Rightarrow> string \<Rightarrow> TaskPriority \<Rightarrow> int \<Rightarrow> datetime \<Rightarrow> string \<times> TaskRunner" where
  "submit_task s tid nm prio mr now =
     (let r = next_ref s;
          task = \<lparr>task_id = tid, name = nm, priority = prio, status = PENDING,
                  created_at = now, started_at = None, completed_at = None,
                  result = None, error = None, retries = 0, max_retries = mr\<rparr>;
          h = (heap s)(r := task)
      in (tid, s\<lparr>heap := h, next_ref := Suc r, task_queue := put (task_queue s) h r\<rparr>))"

text \<open>
  \<open>_execute_task\<close>, first part: up to the call of the task's function.
\<close>

definition execute_task_begin :: "TaskRunner \<Rightarrow> ref \<Rightarrow> datetime \<Rightarrow> TaskRunner" where
  "execute_task_begin s r now =
     s\<lparr>heap := (heap s)(r := (heap s r)\<lparr>status := RUNNING, started_at := Some now\<rparr>)\<rparr>"

text \<open>
  \<open>_execute_task\<close>, second part: from the end of the call of the task's function to the
  return. In the \<open>except\<close> branch \<open>error\<close> and \<open>retries\<close> are written before the test.
\<close>

definition execute_task_end :: "TaskRunner \<Rightarrow> ref \<Rightarrow> outcome \<Rightarrow> datetime \<Rightarrow> TaskRunner" where
  "execute_task_end s r out now =
     (case out of
        Returned v \<Rightarrow>
          s\<lparr>heap := (heap s)(r := (heap s r)\<lparr>result := v, status := COMPLETED,
                                              completed_at := Some now\<rparr>)\<rparr>
      | Raised msg \<Rightarrow>
          (let t = (heap s r)\<lparr>error := Some msg, retries := retries (heap s r) + 1\<rparr>
           in if retries t \<le> max_retries t
              then (let h = (heap s)(r := t\<lparr>status := RETRYING\<rparr>)
                    in s\<lparr>heap := h, task_queue := put (task_queue s) h r\<rparr>)
              else s\<lparr>heap := (heap s)(r := t\<lparr>status := FAILED,
                                               completed_at := Some now\<rparr>)\<rparr>))"

text \<open>
  The body of the \<open>while self.is_running\<close> loop of \<open>_worker\<close>, first part: from the test
  of \<open>is_running\<close> to the suspension inside \<open>_execute_task\<close>. When \<open>get\<close> has no task the
  worker stays where it is.
\<close>

definition worker_dequeue :: "TaskRunner \<Rightarrow> nat \<Rightarrow> datetime \<Rightarrow> TaskRunner" where
  "worker_dequeue s w now =
     (if w < length (workers s) \<and> workers s ! w = Waiting \<and> is_running s
      then (case get (task_queue s) of
              None \<Rightarrow> s
            | Some (r, tq') \<Rightarrow>
                execute_task_begin
                  (s\<lparr>task_queue := tq',
                     active_tasks := (active_tasks s)(task_id (heap s r) \<mapsto> r),
                     workers := (workers s)[w := Executing r]\<rparr>) r now)
      else s)"

text \<open>
  The loop body, second part: the rest of \<open>_execute_task\<close>, then the lines under
  \<open># Move task to completed tasks\<close>, which run whichever way \<open>_execute_task\<close> returned.
\<close>

definition worker_finish :: "TaskRunner \<Rightarrow> nat \<Rightarrow> outcome \<Rightarrow> datetime \<Rightarrow> TaskRunner" where
  "worker_finish s w out now =
     (if w < length (workers s)
      then (case workers s ! w of
              Waiting \<Rightarrow> s
            | Executing r \<Rightarrow>
                (let s1 = execute_task_end s r out now;
                     tid = task_id (heap s1 r);
                     s2 = (if tid \<in> dom (active_tasks s1)
                           then s1\<lparr>active_tasks := (active_tasks s1)(tid := None)\<rparr>
                           else s1)
                 in s2\<lparr>completed_tasks := (completed_tasks s2)(tid \<mapsto> r),
                       workers := (workers s2)[w := Waiting]\<rparr>))
      else s)"

text \<open>\<open>cancel_task\<close>: the returned flag and the new state.\<close>

definition cancel_task :: "TaskRunner \<Rightarrow> string \<Rightarrow> datetime \<Rightarrow> bool \<times> TaskRunner" where
  "cancel_task s tid now =
     (case active_tasks s tid of
        Some r \<Rightarrow>
          (True, s\<lparr>heap := (heap s)(r := (heap s r)\<lparr>status := CANCELLED,
                                                    completed_at := Some now\<rparr>)\<rparr>)
      | None \<Rightarrow> (False, s))"

text \<open>
  \<open>Task.to_dict\<close>: the dict as a record of its entries. \<open>isoformat()\<close> of a timestamp
  is kept as the timestamp.
\<close>

record TaskDict =
  d_task_id :: string
  d_name :: string
  d_priority :: string
  d_status :: string
  d_created_at :: datetime
  d_started_at :: "datetime option"
  d_completed_at :: "datetime option"
  d_result :: "pyval option"
  d_error :: "string option"
  d_retries :: int
  d_max_retries :: int

definition to_dict :: "Task \<Rightarrow> TaskDict" where
  "to_dict t = \<lparr>d_task_id = task_id t, d_name = name t,
     d_priority = priority_value (priority t), d_status = status_value (status t),
     d_created_at = created_at t, d_started_at = started_at t,
     d_completed_at = completed_at t, d_result = result t, d_error = error t,
     d_retries = retries t, d_max_retries = max_retries t\<rparr>"

text \<open>
  A subscript \<open>d[k]\<close> on a dict raises \<open>KeyError\<close> for a missing key; \<open>k in d\<close> does not.
\<close>

datatype py_error = KeyError

definition subscript :: "('k \<rightharpoonup> 'v) \<Rightarrow> 'k \<Rightarrow> py_error + 'v" where
  "subscript d k = (case d k of None \<Rightarrow> Inl KeyError | Some v \<Rightarrow> Inr v)"

text \<open>\<open>get_task_status\<close>: \<open>Inr None\<close> is the returned \<open>None\<close>, \<open>Inl\<close> a raised exception.\<close>

definition get_task_status :: "TaskRunner \<Rightarrow> string \<Rightarrow> py_error + TaskDict option" where
  "get_task_status s tid =
     (if tid \<in> dom (active_tasks s)
      then (case subscript (active_tasks s) tid of
              Inl e \<Rightarrow> Inl e | Inr r \<Rightarrow> Inr (Some (to_dict (heap s r))))
      else if tid \<in> dom (completed_tasks s)
      then (case subscript (completed_tasks s) tid of
              Inl e \<Rightarrow> Inl e | Inr r \<Rightarrow> Inr (Some (to_dict (heap s r))))
      else Inr None)"

text \<open>
  The operations as events, and a run of the runner as a list of them. \<open>Dequeue w\<close> and
  \<open>Finish w\<close> are the two parts of the loop body of worker number \<open>w\<close>.
\<close>

datatype event =
    Start
  | Submit string string TaskPriority int datetime
  | Dequeue nat datetime
  | Finish nat outcome datetime
  | Cancel string datetime

fun step :: "TaskRunner \<Rightarrow> event \<Rightarrow> TaskRunner" where
  "step s Start = start s"
| "step s (Submit tid nm prio mr now) = snd (submit_task s tid nm prio mr now)"
| "step s (Dequeue w now) = worker_dequeue s w now"
| "step s (Finish w out now) = worker_finish s w out now"
| "step s (Cancel tid now) = snd (cancel_task s tid now)"

definition run :: "TaskRunner \<Rightarrow> event list \<Rightarrow> TaskRunner" where
  "run s evs = foldl step s evs"

text \<open>The references held by the queue, front to back within each priority.\<close>

definition contents :: "TaskQueue \<Rightarrow> ref list" where
  "contents tq = concat (map (queues tq) scan_order)"

definition queued :: "TaskRunner \<Rightarrow> ref list" where
  "queued s = contents (task_queue s)"

section \<open>Stopping the runner\<close>

text \<open>
  \<open>stop\<close> cancels every worker and awaits \<open>asyncio.gather\<close> of all of them, with no
  timeout. \<open>worker.cancel()\<close> raises \<open>CancelledError\<close> at the place where the worker is
  suspended. A worker waiting in \<open>get\<close> catches it in \<open>_worker\<close> and ends. For a worker
  inside a task's function it is the function that receives the exception first, and
  what it does with it is an input of the model: it lets the exception pass (neither
  \<open>except Exception\<close> handler catches a \<open>CancelledError\<close>, so \<open>_worker\<close> ends and the task
  stays as it is); or it catches it and still ends with an outcome, after which the
  worker completes its loop body and leaves the loop because \<open>is_running\<close> is false; or
  it catches it and never ends. \<open>None\<close> stands for a wait that does not end.
\<close>

datatype reaction = Propagates | Finishes outcome datetime | Never_returns

definition cancel_worker :: "TaskRunner \<Rightarrow> (nat \<Rightarrow> reaction) \<Rightarrow> nat \<Rightarrow> TaskRunner option" where
  "cancel_worker s react w =
     (case workers s ! w of
        Waiting \<Rightarrow> Some s
      | Executing r \<Rightarrow>
          (case react w of
             Propagates \<Rightarrow> Some s
           | Finishes out now \<Rightarrow> Some (worker_finish s w out now)
           | Never_returns \<Rightarrow> None))"

fun gather :: "TaskRunner \<Rightarrow> (nat \<Rightarrow> reaction) \<Rightarrow> nat list \<Rightarrow> TaskRunner option" where
  "gather s react [] = Some s"
| "gather s react (w # ws) =
     (case cancel_worker s react w of None \<Rightarrow> None | Some s' \<Rightarrow> gather s' react ws)"

definition stop :: "TaskRunner \<Rightarrow> (nat \<Rightarrow> reaction) \<Rightarrow> TaskRunner option" where
  "stop s react =
     (if \<not> is_running s then Some s
      else (case gather (s\<lparr>is_running := False\<rparr>) react [0..<length (workers s)] of
              None \<Rightarrow> None
            | Some s' \<Rightarrow> Some (s'\<lparr>workers := []\<rparr>)))"

text \<open>Two reactions for the concrete histories: every task lets the cancellation pass,
  or every task swallows it and never ends.\<close>

definition obeys :: "nat \<Rightarrow> reaction" where
  "obeys w = Propagates"

definition stuck :: "nat \<Rightarrow> reaction" where
  "stuck w = Never_returns"

section \<open>Concrete inputs\<close>

definition demo_heap :: "ref \<Rightarrow> Task" where
  "demo_heap = (\<lambda>r. blank_task\<lparr>priority := (if r = 0 then LOW else URGENT)\<rparr>)"

definition demo_queue :: TaskQueue where
  "demo_queue = put (put TaskQueue_init demo_heap 0) demo_heap 1"

text \<open>
  One runner with one worker and one task \<open>t1\<close> with \<open>max_retries = 1\<close>, followed along
  two histories: the first attempt raises and the second returns 5; or the task is
  cancelled during its first attempt, which then returns 5.
\<close>

definition demo_submitted :: TaskRunner where
  "demo_submitted = run (TaskRunner_init 1) [Start, Submit ''t1'' ''job'' MEDIUM 1 10]"

definition demo_running :: TaskRunner where
  "demo_running = step demo_submitted (Dequeue 0 11)"

definition demo_retrying :: TaskRunner where
  "demo_retrying = step demo_running (Finish 0 (Raised ''boom'') 12)"

definition demo_rerun :: TaskRunner where
  "demo_rerun = step demo_retrying (Dequeue 0 13)"

definition demo_recovered :: TaskRunner where
  "demo_recovered = step demo_rerun (Finish 0 (Returned (Some (PyInt 5))) 14)"

definition demo_cancelled :: TaskRunner where
  "demo_cancelled = step demo_running (Cancel ''t1'' 12)"

definition demo_overwritten :: TaskRunner where
  "demo_overwritten = step demo_cancelled (Finish 0 (Returned (Some (PyInt 5))) 13)"

text \<open>
  Whether a task with the given id is in the queue, and in how many of the three places
  (queue, active table, completed table) an id is found.
\<close>

definition in_queue :: "TaskRunner \<Rightarrow> string \<Rightarrow> bool" where
  "in_queue s tid = (\<exists>r \<in> set (queued s). task_id (heap s r) = tid)"

definition places :: "TaskRunner \<Rightarrow> string \<Rightarrow> nat" where
  "places s tid =
     (if in_queue s tid then 1 else 0) +
     (if tid \<in> dom (active_tasks s) then 1 else 0) +
     (if tid \<in> dom (completed_tasks s) then 1 else 0)"

text \<open>The terminal statuses, and the invariant the data model states for \<open>result\<close> and
  \<open>error\<close>: exactly one of "result set", "error set", "not terminal" holds.\<close>

definition terminal :: "TaskStatus \<Rightarrow> bool" where
  "terminal st = (st = COMPLETED \<or> st = FAILED \<or> st = CANCELLED)"

definition exactly_one_outcome :: "Task \<Rightarrow> bool" where
  "exactly_one_outcome t =
     (length (filter id [result t \<noteq> None, error t \<noteq> None, \<not> terminal (status t)]) = 1)"

section \<open>Well-formed runner states\<close>

text \<open>
  A task is held while it waits in the queue or is the local variable of a worker that
  is executing it.
\<close>

definition executing :: "TaskRunner \<Rightarrow> ref \<Rightarrow> bool" where
  "executing s r = (Executing r \<in> set (workers s))"

definition held :: "TaskRunner \<Rightarrow> ref \<Rightarrow> bool" where
  "held s r = (r \<in> set (queued s) \<or> executing s r)"

text \<open>What holds of the fields of a task that waits in the queue, of one that is being
  executed, and of one that no queue and no worker holds any more.\<close>

definition task_queued_ok :: "Task \<Rightarrow> bool" where
  "task_queued_ok t =
     (result t = None \<and>
      (status t = PENDING \<and> retries t = 0 \<and> error t = None \<or>
       status t = RETRYING \<and> 1 \<le> retries t \<and> retries t \<le> max_retries t \<and> error t \<noteq> None))"

definition task_executing_ok :: "Task \<Rightarrow> bool" where
  "task_executing_ok t =
     (result t = None \<and> (status t = RUNNING \<or> status t = CANCELLED) \<and>
      (retries t = 0 \<and> error t = None \<or>
       1 \<le> retries t \<and> retries t \<le> max_retries t \<and> error t \<noteq> None))"

definition task_done_ok :: "Task \<Rightarrow> bool" where
  "task_done_ok t =
     (completed_at t \<noteq> None \<and>
      (status t = COMPLETED \<and> 0 \<le> retries t \<and> (error t \<noteq> None \<longleftrightarrow> 0 < retries t) \<or>
       status t = FAILED \<and> result t = None \<and> error t \<noteq> None \<and>
         retries t = max 0 (max_retries t) + 1))"

text \<open>No reference is held twice, and every held reference is an allocated one.\<close>

definition inv_held :: "TaskRunner \<Rightarrow> bool" where
  "inv_held s =
     (distinct (queued s) \<and>
      (\<forall>i j r. i < length (workers s) \<and> j < length (workers s) \<and>
         workers s ! i = Executing r \<and> workers s ! j = Executing r \<longrightarrow> i = j) \<and>
      (\<forall>r \<in> set (queued s). \<not> executing s r) \<and>
      (\<forall>r. held s r \<longrightarrow> r < next_ref s))"

text \<open>An entry of the active table is a task under execution, filed under its own id;
  an entry of the completed table is an allocated task that has left status Pending,
  filed under its own id.\<close>

definition inv_tables :: "TaskRunner \<Rightarrow> bool" where
  "inv_tables s =
     ((\<forall>tid r. active_tasks s tid = Some r \<longrightarrow> executing s r \<and> task_id (heap s r) = tid) \<and>
      (\<forall>tid r. completed_tasks s tid = Some r \<longrightarrow>
         r < next_ref s \<and> task_id (heap s r) = tid \<and> status (heap s r) \<noteq> PENDING))"

definition inv_tasks :: "TaskRunner \<Rightarrow> bool" where
  "inv_tasks s =
     ((\<forall>r \<in> set (queued s). task_queued_ok (heap s r)) \<and>
      (\<forall>r. executing s r \<longrightarrow> task_executing_ok (heap s r)) \<and>
      (\<forall>r < next_ref s. \<not> held s r \<longrightarrow> task_done_ok (heap s r)))"

text \<open>A task that is no longer held is the entry of the completed table under its id,
  unless another task with the same id exists.\<close>

definition inv_done :: "TaskRunner \<Rightarrow> bool" where
  "inv_done s =
     (\<forall>r < next_ref s. \<not> held s r \<longrightarrow>
        completed_tasks s (task_id (heap s r)) = Some r \<or>
        (\<exists>r' < next_ref s. r' \<noteq> r \<and> task_id (heap s r') = task_id (heap s r)))"

definition wf :: "TaskRunner \<Rightarrow> bool" where
  "wf s = (inv_held s \<and> inv_tables s \<and> inv_tasks s \<and> inv_done s)"

text \<open>\<open>generate_task_id\<close> is documented to return a unique id: no two allocated tasks
  have the same one.\<close>

definition unique_ids :: "TaskRunner \<Rightarrow> bool" where
  "unique_ids s =
     (\<forall>r < next_ref s. \<forall>r' < next_ref s.
        task_id (heap s r) = task_id (heap s r') \<longrightarrow> r = r')"

text \<open>
  The execution attempts of one task along a run: an attempt ends at each \<open>Finish\<close> of a
  worker that is executing the task. \<open>always_fails\<close> says that each of them ends with
  an exception.
\<close>

fun ends_attempt :: "ref \<Rightarrow> TaskRunner \<Rightarrow> event \<Rightarrow> bool" where
  "ends_attempt r s (Finish w out now) =
     (w < length (workers s) \<and> workers s ! w = Executing r)"
| "ends_attempt r s e = False"

fun raises :: "event \<Rightarrow> bool" where
  "raises (Finish w (Raised msg) now) = True"
| "raises e = False"

fun attempts :: "ref \<Rightarrow> TaskRunner \<Rightarrow> event list \<Rightarrow> nat" where
  "attempts r s [] = 0"
| "attempts r s (e # es) =
     (if ends_attempt r s e then 1 else 0) + attempts r (step s e) es"

fun always_fails :: "ref \<Rightarrow> TaskRunner \<Rightarrow> event list \<Rightarrow> bool" where
  "always_fails r s [] = True"
| "always_fails r s (e # es) =
     ((ends_attempt r s e \<longrightarrow> raises e) \<and> always_fails r (step s e) es)"

text \<open>
  The task fields after an attempt has ended with a given outcome, and whether the
  attempt puts the task back in the queue: what \<open>execute_task_end\<close> does, read off for
  the one task. The lemma \<open>worker_finish_cases\<close> relates the two.
\<close>

definition after_attempt :: "Task \<Rightarrow> outcome \<Rightarrow> datetime \<Rightarrow> Task" where
  "after_attempt t out now =
     (case out of
        Returned v \<Rightarrow> t\<lparr>result := v, status := COMPLETED, completed_at := Some now\<rparr>
      | Raised msg \<Rightarrow>
          (if retries t + 1 \<le> max_retries t
           then t\<lparr>error := Some msg, retries := retries t + 1, status := RETRYING\<rparr>
           else t\<lparr>error := Some msg, retries := retries t + 1, status := FAILED,
                  completed_at := Some now\<rparr>))"

definition requeues :: "Task \<Rightarrow> outcome \<Rightarrow> bool" where
  "requeues t out =
     (case out of Returned v \<Rightarrow> False | Raised msg \<Rightarrow> retries t + 1 \<le> max_retries t)"

text \<open>The event is the first part of a worker's loop body and takes the task \<open>r\<close> from
  the queue; and a run in which that never happens.\<close>

fun dequeues :: "ref \<Rightarrow> TaskRunner \<Rightarrow> event \<Rightarrow> bool" where
  "dequeues r s (Dequeue w now) =
     (w < length (workers s) \<and> workers s ! w = Waiting \<and> is_running s \<and>
      (case get (task_queue s) of None \<Rightarrow> False | Some (r', tq') \<Rightarrow> r' = r))"
| "dequeues r s e = False"

fun not_dequeued :: "ref \<Rightarrow> TaskRunner \<Rightarrow> event list \<Rightarrow> bool" where
  "not_dequeued r s [] = True"
| "not_dequeued r s (e # es) = (\<not> dequeues r s e \<and> not_dequeued r (step s e) es)"

text \<open>The text of the exception an event ends an attempt with, and the text of the last
  exception among the attempts of one task along a run (\<open>acc\<close> when there is none).\<close>

fun raised_text :: "event \<Rightarrow> string option" where
  "raised_text (Finish w (Raised msg) now) = Some msg"
| "raised_text e = None"

fun last_error :: "ref \<Rightarrow> TaskRunner \<Rightarrow> event list \<Rightarrow> string option \<Rightarrow> string option" where
  "last_error r s [] acc = acc"
| "last_error r s (e # es) acc =
     last_error r (step s e) es (if ends_attempt r s e then raised_text e else acc)"

text \<open>The history of \<open>t1\<close> in which the second attempt raises as well.\<close>

definition demo_failed :: TaskRunner where
  "demo_failed = step demo_rerun (Finish 0 (Raised ''bang'') 14)"

section \<open>The queue\<close>

lemma scan_None: "scan tq ps = None \<longleftrightarrow> (\<forall>p \<in> set ps. queues tq p = [])"
  by (induction ps) (auto split: list.splits)

lemma rank_lt_simps:
  "rank q < rank URGENT \<longleftrightarrow> False"
  "rank q < rank HIGH \<longleftrightarrow> q = URGENT"
  "rank q < rank MEDIUM \<longleftrightarrow> q = URGENT \<or> q = HIGH"
  "rank q < rank LOW \<longleftrightarrow> q = URGENT \<or> q = HIGH \<or> q = MEDIUM"
  by (cases q; simp)+

lemma get_Some:
  assumes "get tq = Some (r, tq')"
  shows "\<exists>p rs. queues tq p = r # rs \<and> (\<forall>q. rank q < rank p \<longrightarrow> queues tq q = []) \<and>
        tq' = tq\<lparr>queues := (queues tq)(p := rs)\<rparr>"
proof -
  have "\<exists>p \<in> set scan_order. \<exists>rs. queues tq p = r # rs \<and>
        (\<forall>q. rank q < rank p \<longrightarrow> queues tq q = []) \<and>
        tq' = tq\<lparr>queues := (queues tq)(p := rs)\<rparr>"
    using assms unfolding get_def scan_order_def
    by (auto simp add: rank_lt_simps simp del: rank.simps split: list.splits)
  then show ?thesis by blast
qed

lemma get_None: "get tq = None \<longleftrightarrow> (\<forall>p. queues tq p = [])"
proof -
  have "set scan_order = UNIV"
    unfolding scan_order_def using TaskPriority.exhaust by auto
  then show ?thesis by (simp add: get_def scan_None)
qed

lemma concat_lanes_front:
  assumes "queues tq p = r # rs" "\<forall>q. rank q < rank p \<longrightarrow> queues tq q = []"
    and "tq' = tq\<lparr>queues := (queues tq)(p := rs)\<rparr>"
  shows "concat (map (queues tq) scan_order) = r # concat (map (queues tq') scan_order)"
  using assms by (cases p) (simp_all add: scan_order_def rank_lt_simps del: rank.simps)

lemma drain_eq: "drain n tq = take n (concat (map (queues tq) scan_order))"
proof (induction n arbitrary: tq)
  case 0
  show ?case by simp
next
  case (Suc n)
  show ?case
  proof (cases "get tq")
    case None
    then have "\<forall>p. queues tq p = []" by (simp add: get_None)
    then show ?thesis using None by simp
  next
    case (Some a)
    obtain r tq' where a: "a = (r, tq')" by (cases a)
    from get_Some [OF Some [unfolded a]] obtain p rs where
      h: "queues tq p = r # rs" "\<forall>q. rank q < rank p \<longrightarrow> queues tq q = []"
         "tq' = tq\<lparr>queues := (queues tq)(p := rs)\<rparr>" by blast
    have "drain (Suc n) tq = r # drain n tq'" using Some a by simp
    also have "\<dots> = r # take n (concat (map (queues tq') scan_order))"
      by (simp only: Suc.IH)
    also have "\<dots> = take (Suc n) (r # concat (map (queues tq') scan_order))" by simp
    also have "\<dots> = take (Suc n) (concat (map (queues tq) scan_order))"
      by (simp only: concat_lanes_front [OF h])
    finally show ?thesis .
  qed
qed

text \<open>
  Claim C5. \<open>get\<close> finds no task exactly when every queue is empty; otherwise it returns
  the front of a queue all of whose higher-priority queues (in the order Urgent, High,
  Medium, Low) are empty, and removes it; \<open>n\<close> calls in a row return the first \<open>n\<close> of
  the Urgent tasks in insertion order, then the High, the Medium and the Low ones.
  \<open>put\<close> appends the task at the back of the queue of its priority, leaves the other
  queues as they are, and has no failing or waiting case.
\<close>

theorem queue_get_put:
  "(get tq = None \<longleftrightarrow> (\<forall>p. queues tq p = [])) \<and>
   (\<forall>r tq'. get tq = Some (r, tq') \<longrightarrow>
      (\<exists>p rs. queues tq p = r # rs \<and> (\<forall>q. rank q < rank p \<longrightarrow> queues tq q = []) \<and>
         tq' = tq\<lparr>queues := (queues tq)(p := rs)\<rparr>)) \<and>
   drain n tq = take n (queues tq URGENT @ queues tq HIGH @ queues tq MEDIUM @ queues tq LOW) \<and>
   queues (put tq h x) (priority (h x)) = queues tq (priority (h x)) @ [x] \<and>
   (\<forall>p. p \<noteq> priority (h x) \<longrightarrow> queues (put tq h x) p = queues tq p)"
proof -
  have "drain n tq = take n (queues tq URGENT @ queues tq HIGH @ queues tq MEDIUM @ queues tq LOW)"
    by (simp add: drain_eq scan_order_def)
  moreover have "\<forall>r tq'. get tq = Some (r, tq') \<longrightarrow>
      (\<exists>p rs. queues tq p = r # rs \<and> (\<forall>q. rank q < rank p \<longrightarrow> queues tq q = []) \<and>
         tq' = tq\<lparr>queues := (queues tq)(p := rs)\<rparr>)"
    using get_Some by blast
  ultimately show ?thesis by (simp add: get_None put_def)
qed

lemma demo_queue_simps: "queues demo_queue URGENT = [1]" "queues demo_queue HIGH = []"
   "queues demo_queue MEDIUM = []" "queues demo_queue LOW = [0]"
  by (simp_all add: demo_queue_def put_def TaskQueue_init_def demo_heap_def)

theorem queue_get_put_witness:
  "get demo_queue = Some (1, demo_queue\<lparr>queues := (queues demo_queue)(URGENT := [])\<rparr>) \<and>
   (\<exists>p rs. queues demo_queue p = 1 # rs \<and> (\<forall>q. rank q < rank p \<longrightarrow> queues demo_queue q = []) \<and>
      demo_queue\<lparr>queues := (queues demo_queue)(URGENT := [])\<rparr> = demo_queue\<lparr>queues := (queues demo_queue)(p := rs)\<rparr>) \<and>
   drain 3 (put demo_queue demo_heap 2) = [1, 2, 0] \<and>
   LOW \<noteq> priority (demo_heap 2) \<and>
   queues (put demo_queue demo_heap 2) LOW = queues demo_queue LOW"
proof -
  have g: "get demo_queue = Some (1, demo_queue\<lparr>queues := (queues demo_queue)(URGENT := [])\<rparr>)"
    by (simp add: get_def scan_order_def demo_queue_simps)
  have p: "LOW \<noteq> priority (demo_heap 2)" by (simp add: demo_heap_def)
  have q: "queues (put demo_queue demo_heap 2) URGENT = [1, 2]"
     "queues (put demo_queue demo_heap 2) HIGH = []"
     "queues (put demo_queue demo_heap 2) MEDIUM = []"
     "queues (put demo_queue demo_heap 2) LOW = [0]"
    by (simp_all add: put_def demo_queue_simps demo_heap_def)
  show ?thesis
    using queue_get_put [of demo_queue 3 demo_heap 2]
          queue_get_put [of "put demo_queue demo_heap 2" 3 demo_heap 2] g p q
    by (simp add: demo_queue_simps)
qed

section \<open>The concrete histories\<close>

lemma get_simps:
  "queues tq URGENT = r # rs \<Longrightarrow> get tq = Some (r, tq\<lparr>queues := (queues tq)(URGENT := rs)\<rparr>)"
  "queues tq URGENT = [] \<Longrightarrow> queues tq HIGH = r # rs \<Longrightarrow>
     get tq = Some (r, tq\<lparr>queues := (queues tq)(HIGH := rs)\<rparr>)"
  "queues tq URGENT = [] \<Longrightarrow> queues tq HIGH = [] \<Longrightarrow> queues tq MEDIUM = r # rs \<Longrightarrow>
     get tq = Some (r, tq\<lparr>queues := (queues tq)(MEDIUM := rs)\<rparr>)"
  "queues tq URGENT = [] \<Longrightarrow> queues tq HIGH = [] \<Longrightarrow> queues tq MEDIUM = [] \<Longrightarrow>
     queues tq LOW = r # rs \<Longrightarrow> get tq = Some (r, tq\<lparr>queues := (queues tq)(LOW := rs)\<rparr>)"
  by (simp_all add: get_def scan_order_def)

lemma demo_submitted_simps:
  "queues (task_queue demo_submitted) p = (if p = MEDIUM then [0] else [])"
  "active_tasks demo_submitted = Map.empty"
  "completed_tasks demo_submitted = Map.empty"
  "workers demo_submitted = [Waiting]"
  "is_running demo_submitted"
  "next_ref demo_submitted = 1"
  "heap demo_submitted 0 = \<lparr>task_id = ''t1'', name = ''job'', priority = MEDIUM,
     status = PENDING, created_at = 10, started_at = None, completed_at = None,
     result = None, error = None, retries = 0, max_retries = 1\<rparr>"
  by (simp_all add: demo_submitted_def run_def start_def TaskRunner_init_def
      submit_task_def put_def TaskQueue_init_def Let_def)

lemma demo_running_simps:
  "queues (task_queue demo_running) p = []"
  "active_tasks demo_running = [''t1'' \<mapsto> 0]"
  "completed_tasks demo_running = Map.empty"
  "workers demo_running = [Executing 0]"
  "is_running demo_running"
  "next_ref demo_running = 1"
  "heap demo_running 0 = \<lparr>task_id = ''t1'', name = ''job'', priority = MEDIUM,
     status = RUNNING, created_at = 10, started_at = Some 11, completed_at = None,
     result = None, error = None, retries = 0, max_retries = 1\<rparr>"
  by (simp_all add: demo_running_def worker_dequeue_def demo_submitted_simps get_simps
      execute_task_begin_def)

lemma demo_retrying_simps:
  "queues (task_queue demo_retrying) p = (if p = MEDIUM then [0] else [])"
  "active_tasks demo_retrying = Map.empty"
  "completed_tasks demo_retrying = [''t1'' \<mapsto> 0]"
  "workers demo_retrying = [Waiting]"
  "is_running demo_retrying"
  "next_ref demo_retrying = 1"
  "heap demo_retrying 0 = \<lparr>task_id = ''t1'', name = ''job'', priority = MEDIUM,
     status = RETRYING, created_at = 10, started_at = Some 11, completed_at = None,
     result = None, error = Some ''boom'', retries = 1, max_retries = 1\<rparr>"
  by (simp_all add: demo_retrying_def worker_finish_def demo_running_simps
      execute_task_end_def put_def Let_def)

lemma demo_rerun_simps:
  "queues (task_queue demo_rerun) p = []"
  "active_tasks demo_rerun = [''t1'' \<mapsto> 0]"
  "completed_tasks demo_rerun = [''t1'' \<mapsto> 0]"
  "workers demo_rerun = [Executing 0]"
  "is_running demo_rerun"
  "next_ref demo_rerun = 1"
  "heap demo_rerun 0 = \<lparr>task_id = ''t1'', name = ''job'', priority = MEDIUM,
     status = RUNNING, created_at = 10, started_at = Some 13, completed_at = None,
     result = None, error = Some ''boom'', retries = 1, max_retries = 1\<rparr>"
  by (simp_all add: demo_rerun_def worker_dequeue_def demo_retrying_simps get_simps
      execute_task_begin_def)

lemma demo_recovered_simps:
  "queues (task_queue demo_recovered) p = []"
  "active_tasks demo_recovered = Map.empty"
  "completed_tasks demo_recovered = [''t1'' \<mapsto> 0]"
  "workers demo_recovered = [Waiting]"
  "heap demo_recovered 0 = \<lparr>task_id = ''t1'', name = ''job'', priority = MEDIUM,
     status = COMPLETED, created_at = 10, started_at = Some 13, completed_at = Some 14,
     result = Some (PyInt 5), error = Some ''boom'', retries = 1, max_retries = 1\<rparr>"
  by (simp_all add: demo_recovered_def worker_finish_def demo_rerun_simps
      execute_task_end_def Let_def)

lemma demo_cancelled_simps:
  "queues (task_queue demo_cancelled) p = []"
  "active_tasks demo_cancelled = [''t1'' \<mapsto> 0]"
  "completed_tasks demo_cancelled = Map.empty"
  "workers demo_cancelled = [Executing 0]"
  "heap demo_cancelled 0 = \<lparr>task_id = ''t1'', name = ''job'', priority = MEDIUM,
     status = CANCELLED, created_at = 10, started_at = Some 11, completed_at = Some 12,
     result = None, error = None, retries = 0, max_retries = 1\<rparr>"
  by (simp_all add: demo_cancelled_def cancel_task_def demo_running_simps)

lemma demo_overwritten_simps:
  "active_tasks demo_overwritten = Map.empty"
  "completed_tasks demo_overwritten = [''t1'' \<mapsto> 0]"
  "workers demo_overwritten = [Waiting]"
  "heap demo_overwritten 0 = \<lparr>task_id = ''t1'', name = ''job'', priority = MEDIUM,
     status = COMPLETED, created_at = 10, started_at = Some 11, completed_at = Some 13,
     result = Some (PyInt 5), error = None, retries = 0, max_retries = 1\<rparr>"
  by (simp_all add: demo_overwritten_def worker_finish_def demo_cancelled_simps
      execute_task_end_def Let_def)

section \<open>Status queries and cancellation\<close>

lemma get_task_status_source:
  assumes "get_task_status s tid = Inr (Some d)"
  shows "\<exists>r. (active_tasks s tid = Some r \<or>
              active_tasks s tid = None \<and> completed_tasks s tid = Some r) \<and>
             d = to_dict (heap s r)"
  using assms
  by (auto simp: get_task_status_def subscript_def dom_def split: option.splits if_splits)

text \<open>
  Claim C8. \<open>get_task_status\<close> answers from the active table when the id is there (also
  when it is in the completed table too), else from the completed table; for an id in
  neither table it returns \<open>None\<close>; no call raises. A returned dict is the record of the
  eleven entries \<open>to_dict\<close> builds from the fields the task has at the call: id, name,
  the \<open>.value\<close> strings of priority and status, the three timestamps, result, error,
  retries and max_retries. It is a value of its own, so a later write to the task does
  not reach it: a second call after the write returns another dict.
\<close>

theorem get_task_status_lookup:
  "(\<forall>r. active_tasks s tid = Some r \<longrightarrow>
      get_task_status s tid = Inr (Some (to_dict (heap s r)))) \<and>
   (\<forall>r. active_tasks s tid = None \<and> completed_tasks s tid = Some r \<longrightarrow>
      get_task_status s tid = Inr (Some (to_dict (heap s r)))) \<and>
   (active_tasks s tid = None \<and> completed_tasks s tid = None \<longrightarrow>
      get_task_status s tid = Inr None) \<and>
   (\<forall>e. get_task_status s tid \<noteq> Inl e) \<and>
   (\<forall>d. get_task_status s tid = Inr (Some d) \<longrightarrow>
      (\<exists>r. (active_tasks s tid = Some r \<or>
              active_tasks s tid = None \<and> completed_tasks s tid = Some r) \<and>
         d = \<lparr>d_task_id = task_id (heap s r), d_name = name (heap s r),
              d_priority = priority_value (priority (heap s r)),
              d_status = status_value (status (heap s r)),
              d_created_at = created_at (heap s r), d_started_at = started_at (heap s r),
              d_completed_at = completed_at (heap s r), d_result = result (heap s r),
              d_error = error (heap s r), d_retries = retries (heap s r),
              d_max_retries = max_retries (heap s r)\<rparr>)) \<and>
   map status_value [PENDING, RUNNING, COMPLETED, FAILED, CANCELLED, RETRYING] =
     [''pending'', ''running'', ''completed'', ''failed'', ''cancelled'', ''retrying''] \<and>
   map priority_value [LOW, MEDIUM, HIGH, URGENT] = [''low'', ''medium'', ''high'', ''urgent'']"
proof -
  have 1: "(\<forall>r. active_tasks s tid = Some r \<longrightarrow>
      get_task_status s tid = Inr (Some (to_dict (heap s r)))) \<and>
   (\<forall>r. active_tasks s tid = None \<and> completed_tasks s tid = Some r \<longrightarrow>
      get_task_status s tid = Inr (Some (to_dict (heap s r)))) \<and>
   (active_tasks s tid = None \<and> completed_tasks s tid = None \<longrightarrow>
      get_task_status s tid = Inr None) \<and>
   (\<forall>e. get_task_status s tid \<noteq> Inl e)"
    by (auto simp: get_task_status_def subscript_def dom_def split: option.splits)
  have 2: "\<forall>d. get_task_status s tid = Inr (Some d) \<longrightarrow>
      (\<exists>r. (active_tasks s tid = Some r \<or>
              active_tasks s tid = None \<and> completed_tasks s tid = Some r) \<and>
         d = \<lparr>d_task_id = task_id (heap s r), d_name = name (heap s r),
              d_priority = priority_value (priority (heap s r)),
              d_status = status_value (status (heap s r)),
              d_created_at = created_at (heap s r), d_started_at = started_at (heap s r),
              d_completed_at = completed_at (heap s r), d_result = result (heap s r),
              d_error = error (heap s r), d_retries = retries (heap s r),
              d_max_retries = max_retries (heap s r)\<rparr>)"
  proof (intro allI impI)
    fix d
    assume "get_task_status s tid = Inr (Some d)"
    from get_task_status_source [OF this] obtain r where
      r: "active_tasks s tid = Some r \<or>
          active_tasks s tid = None \<and> completed_tasks s tid = Some r"
      and d: "d = to_dict (heap s r)"
      by blast
    have "d = \<lparr>d_task_id = task_id (heap s r), d_name = name (heap s r),
              d_priority = priority_value (priority (heap s r)),
              d_status = status_value (status (heap s r)),
              d_created_at = created_at (heap s r), d_started_at = started_at (heap s r),
              d_completed_at = completed_at (heap s r), d_result = result (heap s r),
              d_error = error (heap s r), d_retries = retries (heap s r),
              d_max_retries = max_retries (heap s r)\<rparr>"
      by (simp only: d to_dict_def)
    with r show "\<exists>r. (active_tasks s tid = Some r \<or>
              active_tasks s tid = None \<and> completed_tasks s tid = Some r) \<and>
         d = \<lparr>d_task_id = task_id (heap s r), d_name = name (heap s r),
              d_priority = priority_value (priority (heap s r)),
              d_status = status_value (status (heap s r)),
              d_created_at = created_at (heap s r), d_started_at = started_at (heap s r),
              d_completed_at = completed_at (heap s r), d_result = result (heap s r),
              d_error = error (heap s r), d_retries = retries (heap s r),
              d_max_retries = max_retries (heap s r)\<rparr>"
      by (intro exI [of _ r] conjI)
  qed
  have 3: "map status_value [PENDING, RUNNING, COMPLETED, FAILED, CANCELLED, RETRYING] =
     [''pending'', ''running'', ''completed'', ''failed'', ''cancelled'', ''retrying''] \<and>
   map priority_value [LOW, MEDIUM, HIGH, URGENT] = [''low'', ''medium'', ''high'', ''urgent'']"
    by simp
  show ?thesis using 1 2 3 by blast
qed

theorem get_task_status_lookup_witness:
  "active_tasks demo_rerun ''t1'' = Some 0 \<and>
   get_task_status demo_rerun ''t1'' =
     Inr (Some \<lparr>d_task_id = ''t1'', d_name = ''job'', d_priority = ''medium'',
                 d_status = ''running'', d_created_at = 10, d_started_at = Some 13,
                 d_completed_at = None, d_result = None, d_error = Some ''boom'',
                 d_retries = 1, d_max_retries = 1\<rparr>) \<and>
   active_tasks demo_recovered ''t1'' = None \<and> completed_tasks demo_recovered ''t1'' = Some 0 \<and>
   get_task_status demo_recovered ''t1'' =
     Inr (Some \<lparr>d_task_id = ''t1'', d_name = ''job'', d_priority = ''medium'',
                 d_status = ''completed'', d_created_at = 10, d_started_at = Some 13,
                 d_completed_at = Some 14, d_result = Some (PyInt 5),
                 d_error = Some ''boom'', d_retries = 1, d_max_retries = 1\<rparr>) \<and>
   get_task_status demo_rerun ''t1'' \<noteq> get_task_status (step demo_rerun
      (Finish 0 (Returned (Some (PyInt 5))) 14)) ''t1'' \<and>
   active_tasks demo_recovered ''t2'' = None \<and> completed_tasks demo_recovered ''t2'' = None \<and>
   get_task_status demo_recovered ''t2'' = Inr None"
proof -
  have a: "active_tasks demo_rerun ''t1'' = Some 0" by (simp add: demo_rerun_simps)
  have b: "active_tasks demo_recovered ''t1'' = None \<and>
      completed_tasks demo_recovered ''t1'' = Some 0"
    by (simp add: demo_recovered_simps)
  have c: "active_tasks demo_recovered ''t2'' = None \<and>
      completed_tasks demo_recovered ''t2'' = None"
    by (simp add: demo_recovered_simps)
  have g1: "get_task_status demo_rerun ''t1'' = Inr (Some (to_dict (heap demo_rerun 0)))"
    using get_task_status_lookup [of demo_rerun "''t1''"] a by blast
  have g2: "get_task_status demo_recovered ''t1'' =
      Inr (Some (to_dict (heap demo_recovered 0)))"
    using get_task_status_lookup [of demo_recovered "''t1''"] b by blast
  have g3: "get_task_status demo_recovered ''t2'' = Inr None"
    using get_task_status_lookup [of demo_recovered "''t2''"] c by blast
  have d: "step demo_rerun (Finish 0 (Returned (Some (PyInt 5))) 14) = demo_recovered"
    by (simp only: demo_recovered_def)
  show ?thesis
    unfolding d g1 g2 g3 using a b c
    by (simp add: to_dict_def demo_rerun_simps demo_recovered_simps)
qed

text \<open>
  Claim C7. \<open>cancel_task\<close> returns true exactly when the id is in the active table; then
  the only change is that the task there gets status Cancelled and \<open>completed_at\<close>.
  For any other id (in the completed table only, unknown, or only queued) it returns
  false and changes nothing: a queued task stays in the queue, and when \<open>get\<close> hands it
  to a waiting worker it is put in the active table and set Running as if \<open>cancel_task\<close>
  had not been called.
\<close>

theorem cancel_task_contract:
  "(fst (cancel_task s tid now) \<longleftrightarrow> tid \<in> dom (active_tasks s)) \<and>
   (\<forall>r. active_tasks s tid = Some r \<longrightarrow>
      snd (cancel_task s tid now) =
        s\<lparr>heap := (heap s)(r := (heap s r)\<lparr>status := CANCELLED, completed_at := Some now\<rparr>)\<rparr>) \<and>
   (tid \<notin> dom (active_tasks s) \<longrightarrow> cancel_task s tid now = (False, s)) \<and>
   (\<forall>r tq' w t. tid \<notin> dom (active_tasks s) \<and> task_id (heap s r) = tid \<and>
      get (task_queue s) = Some (r, tq') \<and>
      w < length (workers s) \<and> workers s ! w = Waiting \<and> is_running s \<longrightarrow>
      workers (worker_dequeue (snd (cancel_task s tid now)) w t) ! w = Executing r \<and>
      status (heap (worker_dequeue (snd (cancel_task s tid now)) w t) r) = RUNNING \<and>
      active_tasks (worker_dequeue (snd (cancel_task s tid now)) w t) tid = Some r)"
  by (auto simp: cancel_task_def worker_dequeue_def execute_task_begin_def dom_def
      split: option.splits)

theorem cancel_task_contract_witness:
  "fst (cancel_task demo_running ''t1'' 12) \<and> ''t1'' \<in> dom (active_tasks demo_running) \<and>
   active_tasks demo_running ''t1'' = Some 0 \<and>
   status (heap (snd (cancel_task demo_running ''t1'' 12)) 0) = CANCELLED \<and>
   completed_at (heap (snd (cancel_task demo_running ''t1'' 12)) 0) = Some 12 \<and>
   ''t1'' \<notin> dom (active_tasks demo_submitted) \<and>
   cancel_task demo_submitted ''t1'' 12 = (False, demo_submitted) \<and>
   task_id (heap demo_submitted 0) = ''t1'' \<and>
   0 < length (workers demo_submitted) \<and> workers demo_submitted ! 0 = Waiting \<and>
   is_running demo_submitted \<and>
   status (heap (worker_dequeue (snd (cancel_task demo_submitted ''t1'' 12)) 0 13) 0) = RUNNING \<and>
   ''t1'' \<notin> dom (active_tasks demo_recovered) \<and>
   cancel_task demo_recovered ''t1'' 15 = (False, demo_recovered)"
proof -
  have g: "get (task_queue demo_submitted) =
      Some (0, (task_queue demo_submitted)\<lparr>queues := (queues (task_queue demo_submitted))(MEDIUM := [])\<rparr>)"
    by (rule get_simps(3)) (simp_all add: demo_submitted_simps)
  have d: "status (heap (worker_dequeue (snd (cancel_task demo_submitted ''t1'' 12)) 0 13) 0) = RUNNING"
    using g cancel_task_contract [of demo_submitted "''t1''" 12]
    by (auto simp: demo_submitted_simps)
  show ?thesis
    using d cancel_task_contract [of demo_running "''t1''" 12]
          cancel_task_contract [of demo_recovered "''t1''" 15]
    by (simp add: cancel_task_def demo_running_simps demo_submitted_simps demo_recovered_simps)
qed

section \<open>What a failed attempt with retries left does\<close>

lemma worker_finish_retry:
  assumes "w < length (workers s)" "workers s ! w = Executing r"
    and "retries (heap s r) + 1 \<le> max_retries (heap s r)"
  shows "status (heap (worker_finish s w (Raised msg) now) r) = RETRYING"
    and "queues (task_queue (worker_finish s w (Raised msg) now)) (priority (heap s r)) =
         queues (task_queue s) (priority (heap s r)) @ [r]"
    and "task_id (heap (worker_finish s w (Raised msg) now) r) = task_id (heap s r)"
    and "retries (heap (worker_finish s w (Raised msg) now) r) = retries (heap s r) + 1"
    and "active_tasks (worker_finish s w (Raised msg) now) (task_id (heap s r)) = None"
    and "completed_tasks (worker_finish s w (Raised msg) now) (task_id (heap s r)) = Some r"
  using assms
  by (simp_all add: worker_finish_def execute_task_end_def put_def Let_def domIff)

text \<open>
  Claim C1, at the task \<open>t1\<close> whose first attempt raises with one retry left: the worker
  sets it Retrying and puts the same object back in the queue with its id and with
  \<open>retries = 1\<close>, and it also enters it in the completed table.
\<close>

theorem retry_enters_completed_table:
  "workers demo_running ! 0 = Executing 0 \<and>
   retries (heap demo_running 0) + 1 \<le> max_retries (heap demo_running 0) \<and>
   demo_retrying = worker_finish demo_running 0 (Raised ''boom'') 12 \<and>
   status (heap demo_retrying 0) = RETRYING \<and>
   queued demo_retrying = [0] \<and>
   task_id (heap demo_retrying 0) = ''t1'' \<and>
   retries (heap demo_retrying 0) = 1 \<and>
   completed_tasks demo_retrying ''t1'' = Some 0"
  by (simp add: demo_running_simps demo_retrying_simps queued_def contents_def scan_order_def)
    (simp add: demo_retrying_def)

text \<open>
  Claim C2, along the same history: after the failed attempt the id \<open>t1\<close> is in the queue
  and in the completed table, and once a worker takes the retry it is in the active
  and in the completed table.
\<close>

theorem id_in_two_places_after_retry:
  "demo_retrying = run (TaskRunner_init 1)
      [Start, Submit ''t1'' ''job'' MEDIUM 1 10, Dequeue 0 11, Finish 0 (Raised ''boom'') 12] \<and>
   in_queue demo_retrying ''t1'' \<and> ''t1'' \<in> dom (completed_tasks demo_retrying) \<and>
   places demo_retrying ''t1'' = 2 \<and>
   demo_rerun = step demo_retrying (Dequeue 0 13) \<and>
   ''t1'' \<in> dom (active_tasks demo_rerun) \<and> ''t1'' \<in> dom (completed_tasks demo_rerun) \<and>
   places demo_rerun ''t1'' = 2"
  by (simp add: places_def in_queue_def queued_def contents_def scan_order_def demo_retrying_simps
      demo_rerun_simps)
    (simp add: demo_retrying_def demo_running_def demo_submitted_def demo_rerun_def run_def)

text \<open>
  Claim C6, at the task \<open>t1\<close> cancelled during its first attempt: \<open>cancel_task\<close> returns
  true and the status is Cancelled; when the attempt returns, the worker sets the
  status Completed.
\<close>

theorem cancelled_then_completed:
  "cancel_task demo_running ''t1'' 12 = (True, demo_cancelled) \<and>
   status (heap demo_cancelled 0) = CANCELLED \<and>
   terminal (status (heap demo_cancelled 0)) \<and>
   demo_overwritten = step demo_cancelled (Finish 0 (Returned (Some (PyInt 5))) 13) \<and>
   status (heap demo_overwritten 0) = COMPLETED"
  by (simp add: demo_cancelled_simps demo_overwritten_simps terminal_def)
    (simp add: demo_cancelled_def demo_overwritten_def cancel_task_def demo_running_simps)

section \<open>How each operation changes the state\<close>

lemma contents_get:
  assumes "get tq = Some (r, tq')"
  shows "contents tq = r # contents tq'"
proof -
  from get_Some [OF assms] obtain p rs where
    h: "queues tq p = r # rs" "\<forall>q. rank q < rank p \<longrightarrow> queues tq q = []"
       "tq' = tq\<lparr>queues := (queues tq)(p := rs)\<rparr>" by blast
  show ?thesis unfolding contents_def by (rule concat_lanes_front [OF h])
qed

lemma contents_put_set: "set (contents (put tq h r)) = insert r (set (contents tq))"
  by (cases "priority (h r)") (auto simp: put_def contents_def scan_order_def)

lemma contents_put_distinct:
  "distinct (contents (put tq h r)) \<longleftrightarrow> distinct (contents tq) \<and> r \<notin> set (contents tq)"
  by (cases "priority (h r)") (auto simp: put_def contents_def scan_order_def)

lemma executing_nth: "executing s r \<longleftrightarrow> (\<exists>i < length (workers s). workers s ! i = Executing r)"
  by (auto simp: executing_def in_set_conv_nth)

text \<open>The two outcomes of the first part of the loop body.\<close>

lemma worker_dequeue_cases:
  obtains (idle) "worker_dequeue s w now = s"
  | (taken) r tq' where "w < length (workers s)" "workers s ! w = Waiting"
      "get (task_queue s) = Some (r, tq')" "queued s = r # queued (worker_dequeue s w now)"
      "task_queue (worker_dequeue s w now) = tq'"
      "active_tasks (worker_dequeue s w now) = (active_tasks s)(task_id (heap s r) \<mapsto> r)"
      "completed_tasks (worker_dequeue s w now) = completed_tasks s"
      "workers (worker_dequeue s w now) = (workers s)[w := Executing r]"
      "heap (worker_dequeue s w now) =
         (heap s)(r := (heap s r)\<lparr>status := RUNNING, started_at := Some now\<rparr>)"
      "next_ref (worker_dequeue s w now) = next_ref s" "is_running s"
proof (cases "w < length (workers s) \<and> workers s ! w = Waiting \<and> is_running s")
  case False
  then have "worker_dequeue s w now = s" by (auto simp: worker_dequeue_def)
  then show ?thesis by (rule idle)
next
  case True
  show ?thesis
  proof (cases "get (task_queue s)")
    case None
    then have "worker_dequeue s w now = s" by (simp add: worker_dequeue_def)
    then show ?thesis by (rule idle)
  next
    case (Some a)
    obtain r tq' where a: "a = (r, tq')" by (cases a)
    have g: "get (task_queue s) = Some (r, tq')" using Some a by simp
    have e: "worker_dequeue s w now =
      execute_task_begin (s\<lparr>task_queue := tq',
         active_tasks := (active_tasks s)(task_id (heap s r) \<mapsto> r),
         workers := (workers s)[w := Executing r]\<rparr>) r now"
      using True g by (simp add: worker_dequeue_def)
    show ?thesis
    proof (rule taken [of r tq'])
      show "queued s = r # queued (worker_dequeue s w now)"
        using contents_get [OF g] by (simp add: e queued_def execute_task_begin_def)
    qed (use True g in \<open>simp_all add: e execute_task_begin_def\<close>)
  qed
qed

lemma executing_dequeue:
  assumes "w < length ws" "ws ! w = Waiting"
  shows "Executing r' \<in> set (ws[w := Executing r]) \<longleftrightarrow> r' = r \<or> Executing r' \<in> set ws"
proof
  assume "Executing r' \<in> set (ws[w := Executing r])"
  then show "r' = r \<or> Executing r' \<in> set ws"
    using set_update_subset_insert [of ws w "Executing r"] by auto
next
  assume h: "r' = r \<or> Executing r' \<in> set ws"
  show "Executing r' \<in> set (ws[w := Executing r])"
  proof (cases "r' = r")
    case True
    then show ?thesis using assms(1) by (simp add: set_update_memI)
  next
    case False
    with h obtain i where i: "i < length ws" "ws ! i = Executing r'"
      by (auto simp: in_set_conv_nth)
    with assms(2) have "i \<noteq> w" by auto
    with i have "ws[w := Executing r] ! i = Executing r'" by simp
    with i(1) show ?thesis by (metis length_list_update nth_mem)
  qed
qed

lemma inv_held_dequeue:
  assumes "inv_held s"
  shows "inv_held (worker_dequeue s w now)"
proof (cases rule: worker_dequeue_cases [of s w now])
  case idle
  with assms show ?thesis by simp
next
  case (taken r tq')
  let ?s' = "worker_dequeue s w now"
  have ex: "\<And>r'. executing ?s' r' \<longleftrightarrow> r' = r \<or> executing s r'"
    by (simp add: executing_def taken(8) executing_dequeue [OF taken(1,2)])
  have d: "distinct (r # queued ?s')" using assms taken(4) by (simp add: inv_held_def)
  have nr: "\<not> executing s r" using assms taken(4) by (simp add: inv_held_def)
  have 1: "distinct (queued ?s')" using d by simp
  have 2: "\<forall>i j x. i < length (workers ?s') \<and> j < length (workers ?s') \<and>
         workers ?s' ! i = Executing x \<and> workers ?s' ! j = Executing x \<longrightarrow> i = j"
  proof (intro allI impI)
    fix i j x
    assume h: "i < length (workers ?s') \<and> j < length (workers ?s') \<and>
         workers ?s' ! i = Executing x \<and> workers ?s' ! j = Executing x"
    show "i = j"
    proof (cases "i = w \<or> j = w")
      case True
      with h taken(1,8) have "x = r" by (auto simp: nth_list_update)
      with h taken(1,8) nr show ?thesis
        by (auto simp: nth_list_update executing_nth split: if_splits)
    next
      case False
      with h taken(8) assms show ?thesis
        unfolding inv_held_def by (simp add: nth_list_update)
    qed
  qed
  have 3: "\<forall>x \<in> set (queued ?s'). \<not> executing ?s' x"
    using assms d taken(4) by (auto simp: ex inv_held_def)
  have 4: "\<forall>x. held ?s' x \<longrightarrow> x < next_ref ?s'"
    using assms taken(4,10) by (auto simp: ex inv_held_def held_def)
  show ?thesis unfolding inv_held_def using 1 2 3 4 by blast
qed


lemma inv_tables_dequeue:
  assumes "inv_held s" "inv_tables s"
  shows "inv_tables (worker_dequeue s w now)"
proof (cases rule: worker_dequeue_cases [of s w now])
  case idle
  with assms show ?thesis by simp
next
  case (taken r tq')
  let ?s' = "worker_dequeue s w now"
  have ex: "\<And>r'. executing ?s' r' \<longleftrightarrow> r' = r \<or> executing s r'"
    by (simp add: executing_def taken(8) executing_dequeue [OF taken(1,2)])
  show ?thesis
    unfolding inv_tables_def
    using assms(2) by (auto simp: ex taken(6,7,9,10) inv_tables_def)
qed

lemma inv_tasks_dequeue:
  assumes "inv_held s" "inv_tasks s"
  shows "inv_tasks (worker_dequeue s w now)"
proof (cases rule: worker_dequeue_cases [of s w now])
  case idle
  with assms show ?thesis by simp
next
  case (taken r tq')
  let ?s' = "worker_dequeue s w now"
  have ex: "\<And>r'. executing ?s' r' \<longleftrightarrow> r' = r \<or> executing s r'"
    by (simp add: executing_def taken(8) executing_dequeue [OF taken(1,2)])
  have d: "distinct (r # queued ?s')" using assms taken(4) by (simp add: inv_held_def)
  have hd: "\<And>x. held ?s' x \<longleftrightarrow> held s x"
    by (auto simp: held_def ex taken(4))
  have q: "task_queued_ok (heap s r)" using assms(2) taken(4) by (simp add: inv_tasks_def)
  have 1: "\<forall>x \<in> set (queued ?s'). task_queued_ok (heap ?s' x)"
    using assms(2) d by (auto simp: taken(4,9) inv_tasks_def)
  have 2: "\<forall>x. executing ?s' x \<longrightarrow> task_executing_ok (heap ?s' x)"
    using assms(2) q by (auto simp: ex taken(9) inv_tasks_def task_queued_ok_def task_executing_ok_def)
  have 3: "\<forall>x < next_ref ?s'. \<not> held ?s' x \<longrightarrow> task_done_ok (heap ?s' x)"
  proof (intro allI impI)
    fix x
    assume x: "x < next_ref ?s'" "\<not> held ?s' x"
    have "held s r" by (simp add: held_def taken(4))
    with x(2) have "x \<noteq> r" by (auto simp: hd)
    then have "heap ?s' x = heap s x" by (simp add: taken(9))
    moreover have "task_done_ok (heap s x)"
      using assms(2) x by (simp add: inv_tasks_def hd taken(10))
    ultimately show "task_done_ok (heap ?s' x)" by simp
  qed
  show ?thesis unfolding inv_tasks_def using 1 2 3 by blast
qed

lemma inv_done_dequeue:
  assumes "inv_done s"
  shows "inv_done (worker_dequeue s w now)"
proof (cases rule: worker_dequeue_cases [of s w now])
  case idle
  with assms show ?thesis by simp
next
  case (taken r tq')
  let ?s' = "worker_dequeue s w now"
  have ex: "\<And>r'. executing ?s' r' \<longleftrightarrow> r' = r \<or> executing s r'"
    by (simp add: executing_def taken(8) executing_dequeue [OF taken(1,2)])
  have hd: "\<And>x. held ?s' x \<longleftrightarrow> held s x"
    by (auto simp: held_def ex taken(4))
  have id: "\<And>x. task_id (heap ?s' x) = task_id (heap s x)" by (simp add: taken(9))
  show ?thesis
    unfolding inv_done_def hd id taken(7,10)
    using assms unfolding inv_done_def .
qed

lemma wf_dequeue: "wf s \<Longrightarrow> wf (worker_dequeue s w now)"
  by (simp add: wf_def inv_held_dequeue inv_tables_dequeue inv_tasks_dequeue inv_done_dequeue)


text \<open>The outcomes of the second part of the loop body.\<close>

lemma worker_finish_cases:
  obtains (noop) "worker_finish s w out now = s" "\<forall>r. \<not> ends_attempt r s (Finish w out now)"
  | (ended) r where "w < length (workers s)" "workers s ! w = Executing r"
      "heap (worker_finish s w out now) = (heap s)(r := after_attempt (heap s r) out now)"
      "set (queued (worker_finish s w out now)) =
         (if requeues (heap s r) out then insert r (set (queued s)) else set (queued s))"
      "distinct (queued (worker_finish s w out now)) \<longleftrightarrow>
         distinct (queued s) \<and> (requeues (heap s r) out \<longrightarrow> r \<notin> set (queued s))"
      "active_tasks (worker_finish s w out now) = (active_tasks s)(task_id (heap s r) := None)"
      "completed_tasks (worker_finish s w out now) =
         (completed_tasks s)(task_id (heap s r) \<mapsto> r)"
      "workers (worker_finish s w out now) = (workers s)[w := Waiting]"
      "next_ref (worker_finish s w out now) = next_ref s"
proof (cases "w < length (workers s)")
  case False
  then show ?thesis by (intro noop) (simp_all add: worker_finish_def)
next
  case True
  show ?thesis
  proof (cases "workers s ! w")
    case Waiting
    with True show ?thesis by (intro noop) (simp_all add: worker_finish_def)
  next
    case (Executing r)
    show ?thesis
    proof (rule ended [of r])
      show "set (queued (worker_finish s w out now)) =
         (if requeues (heap s r) out then insert r (set (queued s)) else set (queued s))"
        using True Executing
        by (cases out)
          (simp_all add: worker_finish_def execute_task_end_def Let_def queued_def
            contents_put_set requeues_def)
      show "distinct (queued (worker_finish s w out now)) \<longleftrightarrow>
         distinct (queued s) \<and> (requeues (heap s r) out \<longrightarrow> r \<notin> set (queued s))"
        using True Executing
        by (cases out)
          (simp_all add: worker_finish_def execute_task_end_def Let_def queued_def
            contents_put_distinct requeues_def)
    qed (use True Executing in \<open>cases out;
          simp add: worker_finish_def execute_task_end_def Let_def after_attempt_def
            domIff fun_upd_idem\<close>)+
  qed
qed


lemma executing_finish:
  assumes "w < length ws" "ws ! w = Executing r"
    and u: "\<forall>i j x. i < length ws \<and> j < length ws \<and> ws ! i = Executing x \<and>
              ws ! j = Executing x \<longrightarrow> i = j"
  shows "Executing r' \<in> set (ws[w := Waiting]) \<longleftrightarrow> r' \<noteq> r \<and> Executing r' \<in> set ws"
proof
  assume "Executing r' \<in> set (ws[w := Waiting])"
  then obtain i where i: "i < length ws" "ws[w := Waiting] ! i = Executing r'"
    by (auto simp: in_set_conv_nth)
  then have iw: "i \<noteq> w" using assms(1) by auto
  with i have e: "ws ! i = Executing r'" by simp
  have "r' \<noteq> r"
  proof
    assume "r' = r"
    with e assms(1,2) i(1) u have "i = w" by blast
    with iw show False by simp
  qed
  with e i(1) show "r' \<noteq> r \<and> Executing r' \<in> set ws" by (auto simp: in_set_conv_nth)
next
  assume h: "r' \<noteq> r \<and> Executing r' \<in> set ws"
  then obtain i where i: "i < length ws" "ws ! i = Executing r'"
    by (auto simp: in_set_conv_nth)
  with h assms(2) have "i \<noteq> w" by auto
  with i have "ws[w := Waiting] ! i = Executing r'" by simp
  with i(1) show "Executing r' \<in> set (ws[w := Waiting])"
    by (metis length_list_update nth_mem)
qed

lemma inv_held_finish:
  assumes "inv_held s"
  shows "inv_held (worker_finish s w out now)"
proof (cases rule: worker_finish_cases [of s w out now])
  case noop
  with assms show ?thesis by simp
next
  case (ended r)
  let ?s' = "worker_finish s w out now"
  have u: "\<forall>i j x. i < length (workers s) \<and> j < length (workers s) \<and>
      workers s ! i = Executing x \<and> workers s ! j = Executing x \<longrightarrow> i = j"
    using assms by (simp add: inv_held_def)
  have ex: "\<And>r'. executing ?s' r' \<longleftrightarrow> r' \<noteq> r \<and> executing s r'"
    by (simp add: executing_def ended(8) executing_finish [OF ended(1,2) u])
  have er: "executing s r" using ended(1,2) by (auto simp: executing_nth)
  have nq: "r \<notin> set (queued s)" using assms er by (auto simp: inv_held_def)
  have 1: "distinct (queued ?s')" using assms nq by (simp add: ended(5) inv_held_def)
  have 2: "\<forall>i j x. i < length (workers ?s') \<and> j < length (workers ?s') \<and>
         workers ?s' ! i = Executing x \<and> workers ?s' ! j = Executing x \<longrightarrow> i = j"
  proof (intro allI impI)
    fix i j x
    assume h: "i < length (workers ?s') \<and> j < length (workers ?s') \<and>
         workers ?s' ! i = Executing x \<and> workers ?s' ! j = Executing x"
    then have "i \<noteq> w" "j \<noteq> w" using ended(1,8) by auto
    with h ended(8) u show "i = j" by simp
  qed
  have 3: "\<forall>x \<in> set (queued ?s'). \<not> executing ?s' x"
    using assms by (auto simp: ex ended(4) inv_held_def split: if_splits)
  have 4: "\<forall>x. held ?s' x \<longrightarrow> x < next_ref ?s'"
    using assms er by (auto simp: ex ended(4,9) inv_held_def held_def split: if_splits)
  show ?thesis unfolding inv_held_def using 1 2 3 4 by blast
qed

lemma task_id_after_attempt [simp]: "task_id (after_attempt t out now) = task_id t"
  by (cases out) (simp_all add: after_attempt_def)

lemma status_after_attempt: "status (after_attempt t out now) \<noteq> PENDING"
  by (cases out) (simp_all add: after_attempt_def)

lemma inv_tables_finish:
  assumes "inv_held s" "inv_tables s"
  shows "inv_tables (worker_finish s w out now)"
proof (cases rule: worker_finish_cases [of s w out now])
  case noop
  with assms show ?thesis by simp
next
  case (ended r)
  let ?s' = "worker_finish s w out now"
  have u: "\<forall>i j x. i < length (workers s) \<and> j < length (workers s) \<and>
      workers s ! i = Executing x \<and> workers s ! j = Executing x \<longrightarrow> i = j"
    using assms by (simp add: inv_held_def)
  have ex: "\<And>r'. executing ?s' r' \<longleftrightarrow> r' \<noteq> r \<and> executing s r'"
    by (simp add: executing_def ended(8) executing_finish [OF ended(1,2) u])
  have er: "executing s r" using ended(1,2) by (auto simp: executing_nth)
  have rn: "r < next_ref s" using assms(1) er by (simp add: inv_held_def held_def)
  have id: "\<And>x. task_id (heap ?s' x) = task_id (heap s x)" by (simp add: ended(3))
  have st: "\<And>x. status (heap s x) \<noteq> PENDING \<Longrightarrow> status (heap ?s' x) \<noteq> PENDING"
    by (simp add: ended(3) status_after_attempt)
  have 1: "\<forall>tid x. active_tasks ?s' tid = Some x \<longrightarrow> executing ?s' x \<and> task_id (heap ?s' x) = tid"
    using assms(2) unfolding inv_tables_def id ex ended(6)
    by (auto split: if_splits)
  have 2: "\<forall>tid x. completed_tasks ?s' tid = Some x \<longrightarrow>
         x < next_ref ?s' \<and> task_id (heap ?s' x) = tid \<and> status (heap ?s' x) \<noteq> PENDING"
  proof (intro allI impI)
    fix tid x
    assume c: "completed_tasks ?s' tid = Some x"
    show "x < next_ref ?s' \<and> task_id (heap ?s' x) = tid \<and> status (heap ?s' x) \<noteq> PENDING"
    proof (cases "tid = task_id (heap s r)")
      case True
      with c have "x = r" by (simp add: ended(7))
      with True rn show ?thesis by (simp add: ended(9) ended(3) status_after_attempt)
    next
      case False
      with c have "completed_tasks s tid = Some x" by (simp add: ended(7))
      with assms(2) have "x < next_ref s \<and> task_id (heap s x) = tid \<and> status (heap s x) \<noteq> PENDING"
        by (simp add: inv_tables_def)
      then show ?thesis using st [of x] by (simp add: id ended(9))
    qed
  qed
  show ?thesis unfolding inv_tables_def using 1 2 by blast
qed

lemma after_attempt_queued_ok:
  assumes "task_executing_ok t" "requeues t out"
  shows "task_queued_ok (after_attempt t out now)"
  using assms
  by (cases out) (auto simp: task_executing_ok_def task_queued_ok_def requeues_def after_attempt_def)

lemma after_attempt_done_ok:
  assumes "task_executing_ok t" "\<not> requeues t out"
  shows "task_done_ok (after_attempt t out now)"
  using assms
  by (cases out) (auto simp: task_executing_ok_def task_done_ok_def requeues_def after_attempt_def)

lemma inv_tasks_finish:
  assumes "inv_held s" "inv_tasks s"
  shows "inv_tasks (worker_finish s w out now)"
proof (cases rule: worker_finish_cases [of s w out now])
  case noop
  with assms show ?thesis by simp
next
  case (ended r)
  let ?s' = "worker_finish s w out now"
  have u: "\<forall>i j x. i < length (workers s) \<and> j < length (workers s) \<and>
      workers s ! i = Executing x \<and> workers s ! j = Executing x \<longrightarrow> i = j"
    using assms by (simp add: inv_held_def)
  have ex: "\<And>r'. executing ?s' r' \<longleftrightarrow> r' \<noteq> r \<and> executing s r'"
    by (simp add: executing_def ended(8) executing_finish [OF ended(1,2) u])
  have er: "executing s r" using ended(1,2) by (auto simp: executing_nth)
  have ok: "task_executing_ok (heap s r)" using assms(2) er by (simp add: inv_tasks_def)
  have nq: "r \<notin> set (queued s)" using assms(1) er by (auto simp: inv_held_def)
  have 1: "\<forall>x \<in> set (queued ?s'). task_queued_ok (heap ?s' x)"
  proof
    fix x assume x: "x \<in> set (queued ?s')"
    show "task_queued_ok (heap ?s' x)"
    proof (cases "x = r")
      case True
      with x nq have "requeues (heap s r) out" by (auto simp: ended(4) split: if_splits)
      with ok True show ?thesis by (simp add: ended(3) after_attempt_queued_ok)
    next
      case False
      with x have "x \<in> set (queued s)" by (auto simp: ended(4) split: if_splits)
      with assms(2) False show ?thesis by (simp add: ended(3) inv_tasks_def)
    qed
  qed
  have 2: "\<forall>x. executing ?s' x \<longrightarrow> task_executing_ok (heap ?s' x)"
    using assms(2) by (simp add: ex ended(3) inv_tasks_def)
  have 3: "\<forall>x < next_ref ?s'. \<not> held ?s' x \<longrightarrow> task_done_ok (heap ?s' x)"
  proof (intro allI impI)
    fix x assume x: "x < next_ref ?s'" "\<not> held ?s' x"
    show "task_done_ok (heap ?s' x)"
    proof (cases "x = r")
      case True
      with x(2) have "\<not> requeues (heap s r) out" by (auto simp: held_def ended(4))
      with ok True show ?thesis by (simp add: ended(3) after_attempt_done_ok)
    next
      case False
      with x(2) have "\<not> held s x" by (auto simp: held_def ex ended(4) split: if_splits)
      with assms(2) x(1) False show ?thesis by (simp add: ended(3,9) inv_tasks_def)
    qed
  qed
  show ?thesis unfolding inv_tasks_def using 1 2 3 by blast
qed

lemma inv_done_finish:
  assumes "inv_held s" "inv_done s"
  shows "inv_done (worker_finish s w out now)"
proof (cases rule: worker_finish_cases [of s w out now])
  case noop
  with assms show ?thesis by simp
next
  case (ended r)
  let ?s' = "worker_finish s w out now"
  have u: "\<forall>i j x. i < length (workers s) \<and> j < length (workers s) \<and>
      workers s ! i = Executing x \<and> workers s ! j = Executing x \<longrightarrow> i = j"
    using assms by (simp add: inv_held_def)
  have ex: "\<And>r'. executing ?s' r' \<longleftrightarrow> r' \<noteq> r \<and> executing s r'"
    by (simp add: executing_def ended(8) executing_finish [OF ended(1,2) u])
  have er: "executing s r" using ended(1,2) by (auto simp: executing_nth)
  have rn: "r < next_ref s" using assms(1) er by (simp add: inv_held_def held_def)
  have id: "\<And>x. task_id (heap ?s' x) = task_id (heap s x)" by (simp add: ended(3))
  show ?thesis
    unfolding inv_done_def
  proof (intro allI impI)
    fix x assume x: "x < next_ref ?s'" "\<not> held ?s' x"
    show "completed_tasks ?s' (task_id (heap ?s' x)) = Some x \<or>
        (\<exists>r' < next_ref ?s'. r' \<noteq> x \<and> task_id (heap ?s' r') = task_id (heap ?s' x))"
    proof (cases "x = r")
      case True
      then show ?thesis by (simp add: id ended(7))
    next
      case False
      with x(2) have nh: "\<not> held s x" by (auto simp: held_def ex ended(4) split: if_splits)
      show ?thesis
      proof (cases "task_id (heap s x) = task_id (heap s r)")
        case True
        with False rn show ?thesis unfolding id ended(9) by metis
      next
        case f: False
        from assms(2) x(1) nh have "completed_tasks s (task_id (heap s x)) = Some x \<or>
          (\<exists>r' < next_ref s. r' \<noteq> x \<and> task_id (heap s r') = task_id (heap s x))"
          by (simp add: inv_done_def ended(9))
        with f show ?thesis unfolding id ended(9) by (simp add: ended(7))
      qed
    qed
  qed
qed

lemma wf_finish: "wf s \<Longrightarrow> wf (worker_finish s w out now)"
  by (simp add: wf_def inv_held_finish inv_tables_finish inv_tasks_finish inv_done_finish)

lemma cancel_task_cases:
  obtains (absent) "active_tasks s tid = None" "cancel_task s tid now = (False, s)"
  | (present) r where "active_tasks s tid = Some r"
      "cancel_task s tid now =
         (True, s\<lparr>heap := (heap s)(r := (heap s r)\<lparr>status := CANCELLED,
                                                     completed_at := Some now\<rparr>)\<rparr>)"
  by (cases "active_tasks s tid") (simp_all add: cancel_task_def)

lemma wf_cancel:
  assumes "wf s"
  shows "wf (snd (cancel_task s tid now))"
proof (cases rule: cancel_task_cases [of s tid now])
  case absent
  with assms show ?thesis by simp
next
  case (present r)
  let ?s' = "snd (cancel_task s tid now)"
  have f: "queued ?s' = queued s" "workers ?s' = workers s" "next_ref ?s' = next_ref s"
    "active_tasks ?s' = active_tasks s" "completed_tasks ?s' = completed_tasks s"
    "heap ?s' = (heap s)(r := (heap s r)\<lparr>status := CANCELLED, completed_at := Some now\<rparr>)"
    by (simp_all add: present(2) queued_def)
  have ex: "\<And>x. executing ?s' x = executing s x" "\<And>x. held ?s' x = held s x"
    by (simp_all add: executing_def held_def f)
  have id: "\<And>x. task_id (heap ?s' x) = task_id (heap s x)" by (simp add: f)
  have er: "executing s r" using assms present(1) by (simp add: wf_def inv_tables_def)
  then have hr: "held s r" by (simp add: held_def)
  have nq: "r \<notin> set (queued s)" using assms er by (auto simp: wf_def inv_held_def)
  have 1: "inv_held ?s'" using assms by (simp add: wf_def inv_held_def f ex)
  have 2: "inv_tables ?s'"
    using assms unfolding wf_def inv_tables_def ex id f(3,4,5)
    by (auto simp: f(6))
  have 3: "inv_tasks ?s'"
    unfolding inv_tasks_def ex f(1,3)
  proof (intro conjI ballI allI impI)
    fix x assume "x \<in> set (queued s)"
    with nq assms show "task_queued_ok (heap ?s' x)"
      by (auto simp: f(6) wf_def inv_tasks_def)
  next
    fix x assume "executing s x"
    with assms show "task_executing_ok (heap ?s' x)"
      by (auto simp: f(6) wf_def inv_tasks_def task_executing_ok_def)
  next
    fix x assume "x < next_ref s" "\<not> held s x"
    with hr assms show "task_done_ok (heap ?s' x)"
      by (auto simp: f(6) wf_def inv_tasks_def)
  qed
  have 4: "inv_done ?s'"
    using assms unfolding wf_def inv_done_def ex id f(3,5) by blast
  show ?thesis unfolding wf_def using 1 2 3 4 by blast
qed

lemma wf_start:
  assumes "wf s"
  shows "wf (start s)"
proof (cases "is_running s")
  case True
  with assms show ?thesis by (simp add: start_def)
next
  case False
  let ?s' = "start s"
  let ?n = "nat (max_workers s)"
  have f: "queued ?s' = queued s" "next_ref ?s' = next_ref s" "heap ?s' = heap s"
    "active_tasks ?s' = active_tasks s" "completed_tasks ?s' = completed_tasks s"
    "workers ?s' = workers s @ replicate ?n Waiting"
    using False by (simp_all add: start_def queued_def)
  have ex: "\<And>x. executing ?s' x = executing s x" by (auto simp: executing_def f)
  have hd: "\<And>x. held ?s' x = held s x" by (simp add: held_def ex f)
  have w: "\<And>i x. i < length (workers ?s') \<and> workers ?s' ! i = Executing x \<longleftrightarrow>
      i < length (workers s) \<and> workers s ! i = Executing x"
    by (auto simp: f(6) nth_append)
  have 1: "inv_held ?s'"
    using assms unfolding wf_def inv_held_def ex hd f(1,2)
    by (metis w)
  have 2: "inv_tables ?s'" using assms unfolding wf_def inv_tables_def ex f by blast
  have 3: "inv_tasks ?s'" using assms unfolding wf_def inv_tasks_def ex hd f by blast
  have 4: "inv_done ?s'" using assms unfolding wf_def inv_done_def hd f by blast
  show ?thesis unfolding wf_def using 1 2 3 4 by blast
qed

lemma submit_task_fields:
  "fst (submit_task s tid nm prio mr now) = tid"
  "set (queued (snd (submit_task s tid nm prio mr now))) = insert (next_ref s) (set (queued s))"
  "distinct (queued (snd (submit_task s tid nm prio mr now))) \<longleftrightarrow>
     distinct (queued s) \<and> next_ref s \<notin> set (queued s)"
  "workers (snd (submit_task s tid nm prio mr now)) = workers s"
  "active_tasks (snd (submit_task s tid nm prio mr now)) = active_tasks s"
  "completed_tasks (snd (submit_task s tid nm prio mr now)) = completed_tasks s"
  "next_ref (snd (submit_task s tid nm prio mr now)) = Suc (next_ref s)"
  "heap (snd (submit_task s tid nm prio mr now)) =
     (heap s)(next_ref s := \<lparr>task_id = tid, name = nm, priority = prio, status = PENDING,
        created_at = now, started_at = None, completed_at = None, result = None,
        error = None, retries = 0, max_retries = mr\<rparr>)"
  by (simp_all add: submit_task_def Let_def queued_def contents_put_set contents_put_distinct)

lemma wf_submit:
  assumes "wf s"
  shows "wf (snd (submit_task s tid nm prio mr now))"
proof -
  let ?s' = "snd (submit_task s tid nm prio mr now)"
  let ?r = "next_ref s"
  note f = submit_task_fields [of s tid nm prio mr now]
  have ex: "\<And>x. executing ?s' x = executing s x" by (simp add: executing_def f)
  have hd: "\<And>x. held ?s' x \<longleftrightarrow> x = ?r \<or> held s x" by (auto simp: held_def ex f)
  have nh: "\<not> held s ?r" using assms by (auto simp: wf_def inv_held_def)
  have old: "\<And>x. x \<noteq> ?r \<Longrightarrow> heap ?s' x = heap s x" by (simp add: f)
  have lt: "\<And>x. held s x \<Longrightarrow> x < ?r" using assms by (simp add: wf_def inv_held_def)
  have 1: "inv_held ?s'"
    using assms nh unfolding wf_def inv_held_def ex hd f(3,4,7)
    by (auto simp: f(2) held_def less_Suc_eq)
  have 2: "inv_tables ?s'"
    unfolding inv_tables_def ex f(5,6,7)
  proof (rule conjI; intro allI impI)
    fix t x assume a: "active_tasks s t = Some x"
    with assms have e: "executing s x" "task_id (heap s x) = t"
      by (simp_all add: wf_def inv_tables_def)
    then have "x \<noteq> ?r" using nh by (auto simp: held_def)
    with e show "executing s x \<and> task_id (heap ?s' x) = t" by (simp add: old)
  next
    fix t x assume a: "completed_tasks s t = Some x"
    with assms have e: "x < ?r" "task_id (heap s x) = t" "status (heap s x) \<noteq> PENDING"
      by (simp_all add: wf_def inv_tables_def)
    then show "x < Suc ?r \<and> task_id (heap ?s' x) = t \<and> status (heap ?s' x) \<noteq> PENDING"
      by (simp add: old)
  qed
  have 3: "inv_tasks ?s'"
    unfolding inv_tasks_def ex hd f(7)
  proof (intro conjI ballI allI impI)
    fix x assume "x \<in> set (queued ?s')"
    then have "x = ?r \<or> x \<in> set (queued s)" by (simp add: f(2))
    then show "task_queued_ok (heap ?s' x)"
    proof
      assume "x = ?r"
      then show ?thesis by (simp add: f(8) task_queued_ok_def)
    next
      assume q: "x \<in> set (queued s)"
      then have "x \<noteq> ?r" using nh by (auto simp: held_def)
      with q assms show ?thesis by (simp add: old wf_def inv_tasks_def)
    qed
  next
    fix x assume e: "executing s x"
    then have "x \<noteq> ?r" using nh by (auto simp: held_def)
    with e assms show "task_executing_ok (heap ?s' x)" by (simp add: old wf_def inv_tasks_def)
  next
    fix x assume "x < Suc ?r" "\<not> (x = ?r \<or> held s x)"
    then have "x < ?r" "x \<noteq> ?r" "\<not> held s x" by auto
    with assms show "task_done_ok (heap ?s' x)" by (simp add: old wf_def inv_tasks_def)
  qed
  have 4: "inv_done ?s'"
    unfolding inv_done_def hd f(6,7)
  proof (intro allI impI)
    fix x assume "x < Suc ?r" "\<not> (x = ?r \<or> held s x)"
    then have x: "x < ?r" "x \<noteq> ?r" "\<not> held s x" by auto
    with assms have "completed_tasks s (task_id (heap s x)) = Some x \<or>
        (\<exists>r' < ?r. r' \<noteq> x \<and> task_id (heap s r') = task_id (heap s x))"
      by (simp add: wf_def inv_done_def)
    then show "completed_tasks s (task_id (heap ?s' x)) = Some x \<or>
        (\<exists>r' < Suc ?r. r' \<noteq> x \<and> task_id (heap ?s' r') = task_id (heap ?s' x))"
    proof
      assume "completed_tasks s (task_id (heap s x)) = Some x"
      then show ?thesis using x by (simp add: old)
    next
      assume "\<exists>r' < ?r. r' \<noteq> x \<and> task_id (heap s r') = task_id (heap s x)"
      then obtain r' where "r' < ?r" "r' \<noteq> x" "task_id (heap s r') = task_id (heap s x)"
        by blast
      then have "r' < Suc ?r \<and> r' \<noteq> x \<and> task_id (heap ?s' r') = task_id (heap ?s' x)"
        using x by (simp add: old)
      then show ?thesis by blast
    qed
  qed
  show ?thesis unfolding wf_def using 1 2 3 4 by blast
qed

lemma wf_init: "wf (TaskRunner_init n)"
  by (simp add: wf_def inv_held_def inv_tables_def inv_tasks_def inv_done_def
      TaskRunner_init_def TaskQueue_init_def queued_def contents_def scan_order_def held_def
      executing_def)

lemma wf_step: "wf s \<Longrightarrow> wf (step s e)"
  by (cases e) (simp_all add: wf_start wf_submit wf_dequeue wf_finish wf_cancel)

lemma wf_run: "wf s \<Longrightarrow> wf (run s evs)"
  unfolding run_def by (induction evs arbitrary: s) (simp_all add: wf_step)

lemma run_Cons: "run s (e # es) = run (step s e) es"
  by (simp add: run_def)

lemma run_Nil: "run s [] = s"
  by (simp add: run_def)

lemma wf_reachable: "wf (run (TaskRunner_init n) evs)"
  by (simp add: wf_run wf_init)

text \<open>
  In every state of a run, ids being unique, the id of a task in the queue is not in
  the active table.
\<close>

lemma queued_id_not_active:
  assumes "s = run (TaskRunner_init n) evs" "unique_ids s" "r \<in> set (queued s)"
  shows "active_tasks s (task_id (heap s r)) = None"
proof (cases "active_tasks s (task_id (heap s r))")
  case (Some x)
  have w: "inv_held s" "inv_tables s"
    using wf_reachable [of n evs] assms(1) by (simp_all add: wf_def)
  from w(2) Some have x: "executing s x" "task_id (heap s x) = task_id (heap s r)"
    by (simp_all add: inv_tables_def)
  from w(1) x(1) assms(3) have "x < next_ref s" "r < next_ref s" "\<not> executing s r"
    by (simp_all add: inv_held_def held_def)
  with x assms(2) show ?thesis by (auto simp: unique_ids_def)
qed simp

text \<open>
  A task that has reached Completed or Failed is held by nothing, and no step changes
  any of its fields.
\<close>

lemma finished_task_unchanged:
  assumes "wf s" "r < next_ref s"
    and "status (heap s r) = COMPLETED \<or> status (heap s r) = FAILED"
  shows "heap (step s e) r = heap s r"
proof -
  have it: "inv_tasks s" "inv_tables s" using assms(1) by (simp_all add: wf_def)
  have nq: "r \<notin> set (queued s)"
  proof
    assume "r \<in> set (queued s)"
    with it(1) have "task_queued_ok (heap s r)" by (simp add: inv_tasks_def)
    with assms(3) show False by (auto simp: task_queued_ok_def)
  qed
  have ne: "\<not> executing s r"
  proof
    assume "executing s r"
    with it(1) have "task_executing_ok (heap s r)" by (simp add: inv_tasks_def)
    with assms(3) show False by (auto simp: task_executing_ok_def)
  qed
  show ?thesis
  proof (cases e)
    case Start
    then show ?thesis by (simp add: start_def)
  next
    case (Submit tid nm prio mr now)
    then show ?thesis using assms(2) by (simp add: submit_task_fields)
  next
    case (Dequeue w now)
    show ?thesis
    proof (cases rule: worker_dequeue_cases [of s w now])
      case idle
      with Dequeue show ?thesis by simp
    next
      case (taken x tq')
      with nq have "x \<noteq> r" by auto
      with taken(9) Dequeue show ?thesis by simp
    qed
  next
    case (Finish w out now)
    show ?thesis
    proof (cases rule: worker_finish_cases [of s w out now])
      case noop
      with Finish show ?thesis by simp
    next
      case (ended x)
      then have "executing s x" by (auto simp: executing_nth)
      with ne have "x \<noteq> r" by auto
      with ended(3) Finish show ?thesis by simp
    qed
  next
    case (Cancel tid now)
    show ?thesis
    proof (cases rule: cancel_task_cases [of s tid now])
      case absent
      with Cancel show ?thesis by simp
    next
      case (present x)
      with it(2) have "executing s x" by (simp add: inv_tables_def)
      with ne have "x \<noteq> r" by auto
      with present(2) Cancel show ?thesis by simp
    qed
  qed
qed

section \<open>Result and error\<close>

lemma demo_recovered_run:
  "run (TaskRunner_init 1)
     [Start, Submit ''t1'' ''job'' MEDIUM 1 10, Dequeue 0 11, Finish 0 (Raised ''boom'') 12,
      Dequeue 0 13, Finish 0 (Returned (Some (PyInt 5))) 14] = demo_recovered"
  by (simp add: demo_recovered_def demo_rerun_def demo_retrying_def demo_running_def
      demo_submitted_def run_def)

lemma demo_retrying_run:
  "run (TaskRunner_init 1)
     [Start, Submit ''t1'' ''job'' MEDIUM 1 10, Dequeue 0 11, Finish 0 (Raised ''boom'') 12]
   = demo_retrying"
  by (simp add: demo_retrying_def demo_running_def demo_submitted_def run_def)

text \<open>
  Claim C4 as stated fails along the first history of \<open>t1\<close>: while the task waits for its
  retry it is not terminal and has \<open>error\<close> set, and after the second attempt has
  returned it has both \<open>result\<close> and \<open>error\<close> set.
\<close>

theorem result_error_not_exclusive:
  "\<not> exactly_one_outcome
       (heap (run (TaskRunner_init 1)
          [Start, Submit ''t1'' ''job'' MEDIUM 1 10, Dequeue 0 11,
           Finish 0 (Raised ''boom'') 12]) 0) \<and>
   \<not> exactly_one_outcome
       (heap (run (TaskRunner_init 1)
          [Start, Submit ''t1'' ''job'' MEDIUM 1 10, Dequeue 0 11,
           Finish 0 (Raised ''boom'') 12, Dequeue 0 13,
           Finish 0 (Returned (Some (PyInt 5))) 14]) 0)"
  unfolding demo_recovered_run demo_retrying_run
  by (simp add: exactly_one_outcome_def terminal_def demo_retrying_simps demo_recovered_simps)

text \<open>
  Claim C4 as amended. In every state of a run of start, submit, worker and cancel
  steps, for every task created so far: \<open>result\<close> is set only when the task is Completed
  and no longer held by the queue or a worker, so it is written at most once; \<open>error\<close> is
  set exactly when some attempt has failed (\<open>retries > 0\<close>), terminal or not, and stays
  set when a later attempt succeeds; a Failed task has \<open>error\<close> and no \<open>result\<close>; a
  Pending task has neither.
\<close>

theorem result_error_reachable:
  assumes "s = run (TaskRunner_init n) evs" and "r < next_ref s"
  shows "(result (heap s r) \<noteq> None \<longrightarrow> status (heap s r) = COMPLETED \<and> \<not> held s r) \<and>
         (error (heap s r) \<noteq> None \<longleftrightarrow> 0 < retries (heap s r)) \<and>
         (status (heap s r) = FAILED \<longrightarrow> error (heap s r) \<noteq> None \<and> result (heap s r) = None) \<and>
         (status (heap s r) = PENDING \<longrightarrow> error (heap s r) = None \<and> result (heap s r) = None)"
proof -
  have w: "inv_tasks s" using wf_reachable [of n evs] assms(1) by (simp add: wf_def)
  consider (q) "r \<in> set (queued s)" | (e) "executing s r" | (d) "\<not> held s r"
    by (auto simp: held_def)
  then show ?thesis
  proof cases
    case q
    with w have "task_queued_ok (heap s r)" by (simp add: inv_tasks_def)
    then show ?thesis by (auto simp: task_queued_ok_def)
  next
    case e
    with w have "task_executing_ok (heap s r)" by (simp add: inv_tasks_def)
    then show ?thesis by (auto simp: task_executing_ok_def)
  next
    case d
    with w assms(2) have "task_done_ok (heap s r)" by (simp add: inv_tasks_def)
    with d show ?thesis by (auto simp: task_done_ok_def)
  qed
qed

theorem result_error_reachable_witness:
  "0 < next_ref demo_recovered \<and>
   result (heap demo_recovered 0) = Some (PyInt 5) \<and>
   status (heap demo_recovered 0) = COMPLETED \<and> \<not> held demo_recovered 0 \<and>
   error (heap demo_recovered 0) = Some ''boom'' \<and> 0 < retries (heap demo_recovered 0) \<and>
   status (heap demo_submitted 0) = PENDING \<and> error (heap demo_submitted 0) = None \<and>
   result (heap demo_submitted 0) = None"
proof -
  have a: "demo_submitted = run (TaskRunner_init 1) [Start, Submit ''t1'' ''job'' MEDIUM 1 10]"
    by (simp add: demo_submitted_def)
  have b: "(0::nat) < next_ref demo_submitted" by (simp add: demo_submitted_simps)
  have c: "(0::nat) < next_ref demo_recovered"
    by (simp add: demo_recovered_def demo_rerun_simps worker_finish_def
        execute_task_end_def Let_def)
  show ?thesis
    using result_error_reachable [OF demo_recovered_run [symmetric] c]
          result_error_reachable [OF a b] c
    by (simp add: demo_recovered_simps demo_submitted_simps)
qed

section \<open>A submitted task before its first attempt\<close>

lemma pending_not_in_tables:
  assumes "wf s" "unique_ids s" "r \<in> set (queued s)" "status (heap s r) = PENDING"
  shows "active_tasks s (task_id (heap s r)) = None"
    and "completed_tasks s (task_id (heap s r)) = None"
proof -
  have rn: "r < next_ref s" using assms(1,3) by (simp add: wf_def inv_held_def held_def)
  have ne: "\<not> executing s r" using assms(1,3) by (simp add: wf_def inv_held_def)
  show "active_tasks s (task_id (heap s r)) = None"
  proof (cases "active_tasks s (task_id (heap s r))")
    case (Some x)
    with assms(1) have x: "executing s x" "task_id (heap s x) = task_id (heap s r)"
      by (simp_all add: wf_def inv_tables_def)
    then have "x < next_ref s" using assms(1) by (simp add: wf_def inv_held_def held_def)
    with x(2) rn assms(2) have "x = r" by (simp add: unique_ids_def)
    with x(1) ne show ?thesis by simp
  qed simp
  show "completed_tasks s (task_id (heap s r)) = None"
  proof (cases "completed_tasks s (task_id (heap s r))")
    case (Some x)
    with assms(1) have x: "x < next_ref s" "task_id (heap s x) = task_id (heap s r)"
        "status (heap s x) \<noteq> PENDING"
      by (simp_all add: wf_def inv_tables_def)
    with rn assms(2) have "x = r" by (simp add: unique_ids_def)
    with x(3) assms(4) show ?thesis by simp
  qed simp
qed

lemma pending_stays:
  assumes "wf s" "r \<in> set (queued s)" "\<not> dequeues r s e"
  shows "r \<in> set (queued (step s e)) \<and> heap (step s e) r = heap s r"
proof -
  have rn: "r < next_ref s" using assms(1,2) by (simp add: wf_def inv_held_def held_def)
  have ne: "\<not> executing s r" using assms(1,2) by (simp add: wf_def inv_held_def)
  show ?thesis
  proof (cases e)
    case Start
    then show ?thesis using assms(2) by (simp add: start_def queued_def)
  next
    case (Submit tid nm prio mr now)
    then show ?thesis using assms(2) rn by (simp add: submit_task_fields)
  next
    case (Dequeue w now)
    show ?thesis
    proof (cases rule: worker_dequeue_cases [of s w now])
      case idle
      with Dequeue assms(2) show ?thesis by simp
    next
      case (taken x tq')
      from assms(3) Dequeue taken(1,2,3,11) have "x \<noteq> r" by auto
      with taken(4,9) assms(2) Dequeue show ?thesis by auto
    qed
  next
    case (Finish w out now)
    show ?thesis
    proof (cases rule: worker_finish_cases [of s w out now])
      case noop
      with Finish assms(2) show ?thesis by simp
    next
      case (ended x)
      then have "executing s x" by (auto simp: executing_nth)
      with ne have "x \<noteq> r" by auto
      with ended(3,4) assms(2) Finish show ?thesis by auto
    qed
  next
    case (Cancel tid now)
    show ?thesis
    proof (cases rule: cancel_task_cases [of s tid now])
      case absent
      with Cancel assms(2) show ?thesis by simp
    next
      case (present x)
      with assms(1) have "executing s x" by (simp add: wf_def inv_tables_def)
      with ne have "x \<noteq> r" by auto
      with present(2) assms(2) Cancel show ?thesis by (simp add: queued_def)
    qed
  qed
qed

lemma not_dequeued_stays:
  assumes "wf s" "r \<in> set (queued s)" "not_dequeued r s evs"
  shows "r \<in> set (queued (run s evs)) \<and> heap (run s evs) r = heap s r"
  using assms
proof (induction evs arbitrary: s)
  case Nil
  then show ?case by (simp add: run_Nil)
next
  case (Cons e es)
  from Cons.prems have nd: "\<not> dequeues r s e" "not_dequeued r (step s e) es" by simp_all
  from pending_stays [OF Cons.prems(1,2) nd(1)]
  have st: "r \<in> set (queued (step s e))" "heap (step s e) r = heap s r" by simp_all
  from Cons.IH [OF wf_step [OF Cons.prems(1)] st(1) nd(2)] st(2)
  show ?case by (simp add: run_Cons)
qed

text \<open>
  Claim C10. Take any state of a run, submit a task there, and let the runner go on
  with any steps among which no worker takes that task from the queue. Then, ids being
  unique as \<open>generate_task_id\<close> promises, the task is still in the queue, the returned id
  is in neither table, and \<open>get_task_status\<close> for it returns \<open>None\<close>.
\<close>

theorem submitted_task_not_found:
  assumes "s0 = run (TaskRunner_init n) evs0"
    and "(tid', s1) = submit_task s0 tid nm prio mr now"
    and "not_dequeued (next_ref s0) s1 evs"
    and "s = run s1 evs"
    and "unique_ids s"
  shows "tid' = tid \<and> next_ref s0 \<in> set (queued s) \<and>
         tid \<notin> dom (active_tasks s) \<and> tid \<notin> dom (completed_tasks s) \<and>
         get_task_status s tid = Inr None"
proof -
  let ?r = "next_ref s0"
  have s1: "s1 = snd (submit_task s0 tid nm prio mr now)"
    using assms(2) by (metis snd_conv)
  have t: "tid' = tid"
    using assms(2) submit_task_fields(1) [of s0 tid nm prio mr now] by (metis fst_conv)
  have w0: "wf s0" using assms(1) by (simp add: wf_reachable)
  have w1: "wf s1" unfolding s1 by (rule wf_submit [OF w0])
  have q1: "?r \<in> set (queued s1)" by (simp add: s1 submit_task_fields)
  have h1: "task_id (heap s1 ?r) = tid" "status (heap s1 ?r) = PENDING"
    by (simp_all add: s1 submit_task_fields)
  from not_dequeued_stays [OF w1 q1 assms(3)]
  have q: "?r \<in> set (queued s)" and h: "heap s ?r = heap s1 ?r" by (simp_all add: assms(4))
  have w: "wf s" unfolding assms(4) by (rule wf_run [OF w1])
  have p: "status (heap s ?r) = PENDING" "task_id (heap s ?r) = tid" using h h1 by simp_all
  from pending_not_in_tables [OF w assms(5) q p(1)]
  have "active_tasks s tid = None" "completed_tasks s tid = None" by (simp_all add: p(2))
  then show ?thesis using t q by (simp add: get_task_status_def domIff)
qed

theorem submitted_task_not_found_witness:
  "(''t1'', demo_submitted) =
     submit_task (run (TaskRunner_init 1) [Start]) ''t1'' ''job'' MEDIUM 1 10 \<and>
   not_dequeued 0 demo_submitted [Cancel ''t1'' 12] \<and>
   unique_ids (run demo_submitted [Cancel ''t1'' 12]) \<and>
   0 \<in> set (queued (run demo_submitted [Cancel ''t1'' 12])) \<and>
   ''t1'' \<notin> dom (active_tasks (run demo_submitted [Cancel ''t1'' 12])) \<and>
   ''t1'' \<notin> dom (completed_tasks (run demo_submitted [Cancel ''t1'' 12])) \<and>
   get_task_status (run demo_submitted [Cancel ''t1'' 12]) ''t1'' = Inr None"
proof -
  have n: "next_ref (run (TaskRunner_init 1) [Start]) = 0"
    by (simp add: run_def start_def TaskRunner_init_def)
  have a: "(''t1'', demo_submitted) =
     submit_task (run (TaskRunner_init 1) [Start]) ''t1'' ''job'' MEDIUM 1 10"
    by (simp add: demo_submitted_def run_def submit_task_def Let_def)
  have c: "run demo_submitted [Cancel ''t1'' 12] = demo_submitted"
    by (simp add: run_def cancel_task_def demo_submitted_simps)
  have b: "not_dequeued (next_ref (run (TaskRunner_init 1) [Start])) demo_submitted
      [Cancel ''t1'' 12]"
    by simp
  have u: "unique_ids (run demo_submitted [Cancel ''t1'' 12])"
    by (simp add: c unique_ids_def demo_submitted_simps)
  show ?thesis
    using submitted_task_not_found [OF refl a b refl u] a u by (simp add: n)
qed

section \<open>A task whose every attempt fails\<close>

lemma step_attempt_fields:
  assumes "r < next_ref s" "ends_attempt r s e \<longrightarrow> raises e"
  shows "retries (heap (step s e) r) = retries (heap s r) + (if ends_attempt r s e then 1 else 0)"
    and "max_retries (heap (step s e) r) = max_retries (heap s r)"
    and "task_id (heap (step s e) r) = task_id (heap s r)"
    and "error (heap (step s e) r) = (if ends_attempt r s e then raised_text e else error (heap s r))"
    and "status (heap s r) \<noteq> COMPLETED \<longrightarrow> status (heap (step s e) r) \<noteq> COMPLETED"
    and "r < next_ref (step s e)"
proof -
  have "retries (heap (step s e) r) = retries (heap s r) + (if ends_attempt r s e then 1 else 0) \<and>
    max_retries (heap (step s e) r) = max_retries (heap s r) \<and>
    task_id (heap (step s e) r) = task_id (heap s r) \<and>
    error (heap (step s e) r) = (if ends_attempt r s e then raised_text e else error (heap s r)) \<and>
    (status (heap s r) \<noteq> COMPLETED \<longrightarrow> status (heap (step s e) r) \<noteq> COMPLETED) \<and>
    r < next_ref (step s e)"
  proof (cases e)
    case Start
    then show ?thesis using assms(1) by (simp add: start_def)
  next
    case (Submit tid nm prio mr now)
    then show ?thesis using assms(1) by (simp add: submit_task_fields)
  next
    case (Dequeue w now)
    show ?thesis
    proof (cases rule: worker_dequeue_cases [of s w now])
      case idle
      with Dequeue assms(1) show ?thesis by simp
    next
      case (taken x tq')
      with Dequeue assms(1) show ?thesis by simp
    qed
  next
    case (Finish w out now)
    show ?thesis
    proof (cases rule: worker_finish_cases [of s w out now])
      case noop
      with Finish assms(1) show ?thesis by simp
    next
      case (ended x)
      show ?thesis
      proof (cases "x = r")
        case True
        with ended(1,2) Finish assms(2) obtain msg where "out = Raised msg"
          by (cases out) auto
        with True ended Finish assms(1) show ?thesis by (simp add: after_attempt_def)
      next
        case False
        with ended Finish assms(1) show ?thesis by simp
      qed
    qed
  next
    case (Cancel tid now)
    show ?thesis
    proof (cases rule: cancel_task_cases [of s tid now])
      case absent
      with Cancel assms(1) show ?thesis by simp
    next
      case (present x)
      with Cancel assms(1) show ?thesis by simp
    qed
  qed
  then show "retries (heap (step s e) r) = retries (heap s r) + (if ends_attempt r s e then 1 else 0)"
    and "max_retries (heap (step s e) r) = max_retries (heap s r)"
    and "task_id (heap (step s e) r) = task_id (heap s r)"
    and "error (heap (step s e) r) = (if ends_attempt r s e then raised_text e else error (heap s r))"
    and "status (heap s r) \<noteq> COMPLETED \<longrightarrow> status (heap (step s e) r) \<noteq> COMPLETED"
    and "r < next_ref (step s e)"
    by simp_all
qed

lemma run_attempt_fields:
  assumes "r < next_ref s" "always_fails r s evs"
  shows "retries (heap (run s evs) r) = retries (heap s r) + int (attempts r s evs) \<and>
         max_retries (heap (run s evs) r) = max_retries (heap s r) \<and>
         task_id (heap (run s evs) r) = task_id (heap s r) \<and>
         error (heap (run s evs) r) = last_error r s evs (error (heap s r)) \<and>
         (status (heap s r) \<noteq> COMPLETED \<longrightarrow> status (heap (run s evs) r) \<noteq> COMPLETED) \<and>
         r < next_ref (run s evs)"
  using assms
proof (induction evs arbitrary: s)
  case Nil
  then show ?case by (simp add: run_Nil)
next
  case (Cons e es)
  from Cons.prems(2) have a: "ends_attempt r s e \<longrightarrow> raises e" "always_fails r (step s e) es"
    by simp_all
  note st = step_attempt_fields [OF Cons.prems(1) a(1)]
  from Cons.IH [OF st(6) a(2)] show ?case
    by (simp add: run_Cons st(1-5))
qed


lemma demo_failed_simps:
  "queues (task_queue demo_failed) p = []"
  "active_tasks demo_failed = Map.empty"
  "completed_tasks demo_failed = [''t1'' \<mapsto> 0]"
  "workers demo_failed = [Waiting]"
  "next_ref demo_failed = 1"
  "heap demo_failed 0 = \<lparr>task_id = ''t1'', name = ''job'', priority = MEDIUM,
     status = FAILED, created_at = 10, started_at = Some 13, completed_at = Some 14,
     result = None, error = Some ''bang'', retries = 2, max_retries = 1\<rparr>"
  by (simp_all add: demo_failed_def worker_finish_def demo_rerun_simps
      execute_task_end_def Let_def)

text \<open>
  Claim C3. Submit a task with a retry ceiling \<open>mr \<ge> 0\<close> in any state of a run and let the
  runner go on with any steps in which every attempt of that task ends with an
  exception. Then at every moment the number \<open>k\<close> of attempts ended so far is at most
  \<open>mr + 1\<close> and equals the task's \<open>retries\<close>; the task is Failed exactly when
  \<open>k = mr + 1\<close>; and a Failed task has \<open>retries = mr + 1\<close>, the text of the last
  exception in \<open>error\<close>, \<open>completed_at\<close> set, is held by neither queue nor worker, and,
  ids being unique, is the entry of the completed table under its id and has no entry
  in the active table.
\<close>

theorem always_failing_task:
  assumes "s0 = run (TaskRunner_init n) evs0"
    and "(tid', s1) = submit_task s0 tid nm prio mr now"
    and "0 \<le> mr"
    and "always_fails (next_ref s0) s1 evs"
    and "s = run s1 evs"
  shows "int (attempts (next_ref s0) s1 evs) \<le> mr + 1 \<and>
         retries (heap s (next_ref s0)) = int (attempts (next_ref s0) s1 evs) \<and>
         (status (heap s (next_ref s0)) = FAILED \<longleftrightarrow>
            int (attempts (next_ref s0) s1 evs) = mr + 1) \<and>
         (status (heap s (next_ref s0)) = FAILED \<longrightarrow>
            retries (heap s (next_ref s0)) = mr + 1 \<and>
            error (heap s (next_ref s0)) = last_error (next_ref s0) s1 evs None \<and>
            error (heap s (next_ref s0)) \<noteq> None \<and>
            completed_at (heap s (next_ref s0)) \<noteq> None \<and>
            \<not> held s (next_ref s0) \<and>
            (unique_ids s \<longrightarrow>
               completed_tasks s tid = Some (next_ref s0) \<and> active_tasks s tid = None))"
proof -
  let ?r = "next_ref s0"
  let ?k = "attempts ?r s1 evs"
  have s1: "s1 = snd (submit_task s0 tid nm prio mr now)"
    using assms(2) by (metis snd_conv)
  have w0: "wf s0" using assms(1) by (simp add: wf_reachable)
  have w1: "wf s1" unfolding s1 by (rule wf_submit [OF w0])
  have w: "wf s" unfolding assms(5) by (rule wf_run [OF w1])
  have r1: "?r < next_ref s1" by (simp add: s1 submit_task_fields)
  have h1: "retries (heap s1 ?r) = 0" "max_retries (heap s1 ?r) = mr"
    "task_id (heap s1 ?r) = tid" "error (heap s1 ?r) = None" "status (heap s1 ?r) \<noteq> COMPLETED"
    by (simp_all add: s1 submit_task_fields)
  from run_attempt_fields [OF r1 assms(4)] h1
  have f: "retries (heap s ?r) = int ?k" "max_retries (heap s ?r) = mr"
    "task_id (heap s ?r) = tid" "error (heap s ?r) = last_error ?r s1 evs None"
    "status (heap s ?r) \<noteq> COMPLETED" "?r < next_ref s"
    by (simp_all add: assms(5))
  have it: "inv_tasks s" "inv_done s" "inv_tables s" "inv_held s" using w by (simp_all add: wf_def)
  consider (q) "?r \<in> set (queued s)" | (e) "executing s ?r" | (d) "\<not> held s ?r"
    by (auto simp: held_def)
  then show ?thesis
  proof cases
    case q
    with it(1) have "task_queued_ok (heap s ?r)" by (simp add: inv_tasks_def)
    then have "retries (heap s ?r) \<le> mr \<and> status (heap s ?r) \<noteq> FAILED"
      using assms(3) f(2) by (auto simp: task_queued_ok_def)
    then show ?thesis using f(1) by simp
  next
    case e
    with it(1) have "task_executing_ok (heap s ?r)" by (simp add: inv_tasks_def)
    then have "retries (heap s ?r) \<le> mr \<and> status (heap s ?r) \<noteq> FAILED"
      using assms(3) f(2) by (auto simp: task_executing_ok_def)
    then show ?thesis using f(1) by simp
  next
    case d
    with it(1) f(6) have "task_done_ok (heap s ?r)" by (simp add: inv_tasks_def)
    with f(5) have fl: "status (heap s ?r) = FAILED" "error (heap s ?r) \<noteq> None"
      "completed_at (heap s ?r) \<noteq> None" "retries (heap s ?r) = mr + 1"
      using assms(3) f(2) by (auto simp: task_done_ok_def)
    have tab: "completed_tasks s tid = Some ?r \<and> active_tasks s tid = None" if u: "unique_ids s"
    proof
      from it(2) d f(6) have "completed_tasks s (task_id (heap s ?r)) = Some ?r \<or>
          (\<exists>r' < next_ref s. r' \<noteq> ?r \<and> task_id (heap s r') = task_id (heap s ?r))"
        by (simp add: inv_done_def)
      moreover have "\<not> (\<exists>r' < next_ref s. r' \<noteq> ?r \<and> task_id (heap s r') = task_id (heap s ?r))"
        using u f(6) unfolding unique_ids_def by blast
      ultimately have "completed_tasks s (task_id (heap s ?r)) = Some ?r" by blast
      then show "completed_tasks s tid = Some ?r" by (simp only: f(3))
      show "active_tasks s tid = None"
      proof (cases "active_tasks s tid")
        case (Some x)
        with it(3) have x: "executing s x" "task_id (heap s x) = tid"
          by (simp_all add: inv_tables_def)
        then have "x < next_ref s" using it(4) by (simp add: inv_held_def held_def)
        with x(2) f(3,6) u have "x = ?r" by (simp add: unique_ids_def)
        with x(1) d show ?thesis by (simp add: held_def)
      qed simp
    qed
    show ?thesis using fl f(1,4) d tab by simp
  qed
qed

theorem always_failing_task_witness:
  "(''t1'', demo_submitted) =
     submit_task (run (TaskRunner_init 1) [Start]) ''t1'' ''job'' MEDIUM 1 10 \<and>
   (0::int) \<le> 1 \<and>
   always_fails 0 demo_submitted
     [Dequeue 0 11, Finish 0 (Raised ''boom'') 12, Dequeue 0 13, Finish 0 (Raised ''bang'') 14] \<and>
   demo_failed = run demo_submitted
     [Dequeue 0 11, Finish 0 (Raised ''boom'') 12, Dequeue 0 13, Finish 0 (Raised ''bang'') 14] \<and>
   attempts 0 demo_submitted
     [Dequeue 0 11, Finish 0 (Raised ''boom'') 12, Dequeue 0 13, Finish 0 (Raised ''bang'') 14] = 2 \<and>
   status (heap demo_failed 0) = FAILED \<and> retries (heap demo_failed 0) = 2 \<and>
   error (heap demo_failed 0) = Some ''bang'' \<and>
   completed_at (heap demo_failed 0) \<noteq> None \<and> \<not> held demo_failed 0 \<and>
   unique_ids demo_failed \<and>
   completed_tasks demo_failed ''t1'' = Some 0 \<and> active_tasks demo_failed ''t1'' = None"
proof -
  let ?evs = "[Dequeue 0 11, Finish 0 (Raised ''boom'') 12, Dequeue 0 13,
     Finish 0 (Raised ''bang'') 14]"
  have n: "next_ref (run (TaskRunner_init 1) [Start]) = 0"
    by (simp add: run_def start_def TaskRunner_init_def)
  have a: "(''t1'', demo_submitted) =
     submit_task (run (TaskRunner_init 1) [Start]) ''t1'' ''job'' MEDIUM 1 10"
    by (simp add: demo_submitted_def run_def submit_task_def Let_def)
  have st: "step demo_submitted (Dequeue 0 11) = demo_running"
    "step demo_running (Finish 0 (Raised ''boom'') 12) = demo_retrying"
    "step demo_retrying (Dequeue 0 13) = demo_rerun"
    "step demo_rerun (Finish 0 (Raised ''bang'') 14) = demo_failed"
    by (simp_all only: demo_running_def demo_retrying_def demo_rerun_def demo_failed_def)
  have r: "demo_failed = run demo_submitted ?evs"
    by (simp only: run_Cons run_Nil st)
  have f: "always_fails (next_ref (run (TaskRunner_init 1) [Start])) demo_submitted ?evs"
    unfolding n by (simp only: always_fails.simps st raises.simps ends_attempt.simps) simp
  have k: "attempts 0 demo_submitted ?evs = 2"
    by (simp only: attempts.simps st ends_attempt.simps)
      (simp add: demo_running_simps demo_rerun_simps)
  have l: "last_error 0 demo_submitted ?evs None = Some ''bang''"
    by (simp only: last_error.simps st ends_attempt.simps raised_text.simps)
      (simp add: demo_running_simps demo_rerun_simps)
  have u: "unique_ids demo_failed" by (simp add: unique_ids_def demo_failed_simps)
  have m: "(0::int) \<le> 1" by simp
  show ?thesis
    using always_failing_task [OF refl a m f r] a f r k u unfolding n
    by (simp add: demo_failed_simps)
qed

section \<open>Stopping\<close>

lemma worker_finish_workers:
  "length (workers (worker_finish s w out now)) = length (workers s)"
  "w' \<noteq> w \<Longrightarrow> workers (worker_finish s w out now) ! w' = workers s ! w'"
  "is_running (worker_finish s w out now) = is_running s"
  by (cases out; auto simp: worker_finish_def execute_task_end_def Let_def split: worker.splits)+

lemma cancel_worker_workers:
  assumes "cancel_worker s react w = Some s'"
  shows "length (workers s') = length (workers s)"
    and "w' \<noteq> w \<Longrightarrow> workers s' ! w' = workers s ! w'"
    and "is_running s' = is_running s"
  using assms
  by (auto simp: cancel_worker_def worker_finish_workers split: worker.splits reaction.splits)

lemma cancel_worker_None:
  "cancel_worker s react w = None \<longleftrightarrow>
     (\<exists>r. workers s ! w = Executing r \<and> react w = Never_returns)"
  by (auto simp: cancel_worker_def split: worker.splits reaction.splits)

lemma gather_None:
  assumes "distinct ws"
  shows "gather s react ws = None \<longleftrightarrow>
     (\<exists>w \<in> set ws. \<exists>r. workers s ! w = Executing r \<and> react w = Never_returns)"
  using assms
proof (induction ws arbitrary: s)
  case Nil
  show ?case by simp
next
  case (Cons w ws)
  show ?case
  proof (cases "cancel_worker s react w")
    case None
    then show ?thesis using cancel_worker_None [of s react w] by auto
  next
    case (Some s')
    have nw: "\<not> (\<exists>r. workers s ! w = Executing r \<and> react w = Never_returns)"
      using Some cancel_worker_None [of s react w] by simp
    have same: "workers s' ! x = workers s ! x" if "x \<in> set ws" for x
    proof -
      from that Cons.prems have "x \<noteq> w" by auto
      then show ?thesis by (rule cancel_worker_workers(2) [OF Some])
    qed
    have "gather s react (w # ws) = gather s' react ws" using Some by simp
    also have "\<dots> = None \<longleftrightarrow>
        (\<exists>x \<in> set ws. \<exists>r. workers s' ! x = Executing r \<and> react x = Never_returns)"
      using Cons.IH [of s'] Cons.prems by simp
    also have "\<dots> \<longleftrightarrow> (\<exists>x \<in> set ws. \<exists>r. workers s ! x = Executing r \<and> react x = Never_returns)"
      using same by auto
    also have "\<dots> \<longleftrightarrow> (\<exists>x \<in> set (w # ws). \<exists>r. workers s ! x = Executing r \<and> react x = Never_returns)"
      using nw by auto
    finally show ?thesis .
  qed
qed

lemma gather_is_running: "gather s react ws = Some s' \<Longrightarrow> is_running s' = is_running s"
proof (induction ws arbitrary: s)
  case Nil
  then show ?case by simp
next
  case (Cons w ws)
  then show ?case
    by (auto split: option.splits dest: cancel_worker_workers(3))
qed

text \<open>
  Claim C9 as stated fails: with one worker inside a task that swallows the
  cancellation and never ends, \<open>stop\<close> does not return, with or without a warning.
\<close>

theorem stop_waits_forever:
  "is_running demo_running \<and> workers demo_running = [Executing 0] \<and>
   stuck 0 = Never_returns \<and> stop demo_running stuck = None"
  by (simp add: stop_def demo_running_simps cancel_worker_def stuck_def)

text \<open>
  Claim C9 as amended. \<open>stop\<close> on a runner that is not running returns at once and
  changes nothing. On a running one it cancels and awaits every worker: when each
  worker that is inside a task gets a reaction that ends, \<open>stop\<close> returns with
  \<open>is_running\<close> false and the worker list empty; when some worker is inside a task
  that never ends, \<open>stop\<close> never returns. There is no grace period and no warning.
\<close>

theorem stop_contract:
  "(\<not> is_running s \<longrightarrow> stop s react = Some s) \<and>
   (is_running s \<and>
    (\<forall>w < length (workers s). \<forall>r. workers s ! w = Executing r \<longrightarrow> react w \<noteq> Never_returns) \<longrightarrow>
      (\<exists>s'. stop s react = Some s' \<and> \<not> is_running s' \<and> workers s' = [])) \<and>
   (is_running s \<and>
    (\<exists>w < length (workers s). \<exists>r. workers s ! w = Executing r \<and> react w = Never_returns) \<longrightarrow>
      stop s react = None)"
proof -
  let ?s1 = "s\<lparr>is_running := False\<rparr>"
  let ?ws = "[0..<length (workers s)]"
  have g: "gather ?s1 react ?ws = None \<longleftrightarrow>
     (\<exists>w < length (workers s). \<exists>r. workers s ! w = Executing r \<and> react w = Never_returns)"
    using gather_None [of ?ws ?s1 react] by auto
  have 1: "\<not> is_running s \<longrightarrow> stop s react = Some s" by (simp add: stop_def)
  have 2: "is_running s \<and>
    (\<forall>w < length (workers s). \<forall>r. workers s ! w = Executing r \<longrightarrow> react w \<noteq> Never_returns) \<longrightarrow>
      (\<exists>s'. stop s react = Some s' \<and> \<not> is_running s' \<and> workers s' = [])"
  proof
    assume a: "is_running s \<and>
      (\<forall>w < length (workers s). \<forall>r. workers s ! w = Executing r \<longrightarrow> react w \<noteq> Never_returns)"
    with g have "gather ?s1 react ?ws \<noteq> None" by blast
    then obtain s2 where s2: "gather ?s1 react ?ws = Some s2" by blast
    from gather_is_running [OF s2] have "\<not> is_running s2" by simp
    with a s2 show "\<exists>s'. stop s react = Some s' \<and> \<not> is_running s' \<and> workers s' = []"
      by (simp add: stop_def)
  qed
  have 3: "is_running s \<and>
    (\<exists>w < length (workers s). \<exists>r. workers s ! w = Executing r \<and> react w = Never_returns) \<longrightarrow>
      stop s react = None"
  proof
    assume "is_running s \<and>
      (\<exists>w < length (workers s). \<exists>r. workers s ! w = Executing r \<and> react w = Never_returns)"
    with g have "is_running s" "gather ?s1 react ?ws = None" by blast+
    then show "stop s react = None" by (simp add: stop_def)
  qed
  show ?thesis using 1 2 3 by blast
qed

theorem stop_contract_witness:
  "\<not> is_running (TaskRunner_init 1) \<and> stop (TaskRunner_init 1) obeys = Some (TaskRunner_init 1) \<and>
   is_running demo_running \<and>
   (\<exists>s'. stop demo_running obeys = Some s' \<and> \<not> is_running s' \<and> workers s' = []) \<and>
   (0::nat) < length (workers demo_running) \<and> workers demo_running ! 0 = Executing 0 \<and>
   stuck 0 = Never_returns \<and> stop demo_running stuck = None"
proof -
  have a: "\<not> is_running (TaskRunner_init 1)" by (simp add: TaskRunner_init_def)
  have b: "\<forall>w < length (workers demo_running). \<forall>r. workers demo_running ! w = Executing r \<longrightarrow>
      obeys w \<noteq> Never_returns"
    by (simp add: obeys_def)
  have c: "\<exists>w < length (workers demo_running). \<exists>r. workers demo_running ! w = Executing r \<and>
      stuck w = Never_returns"
    by (simp add: stuck_def demo_running_simps)
  show ?thesis
    using stop_contract [of "TaskRunner_init 1" obeys] stop_contract [of demo_running obeys]
      stop_contract [of demo_running stuck] a b c
    by (simp add: demo_running_simps stuck_def)
qed

end
